theory Spec2Isabelle
  imports Complex_Main "HOL-Library.Multiset"
begin

section \<open>Numbers, vectors and buffers\<close>

text \<open>
  A JavaScript number is modelled by the \<^typ>\<open>real\<close> number it stands for; there is
  no infinity, and the two zeros are one number. Where the code computes a value
  (a volume, an area, a cross product) the arithmetic is taken exact, and the scan
  of the hull builder tests the sign of the exact cross product. Where the code
  compares two computed keys for equality, in the comparator of the sort, rounding
  decides which branch is taken: there the results of the floating-point
  operations are taken from the engine that runs the code (\<open>engine\<close> below).

  The one non-number that the code can produce from well-typed inputs is \<open>NaN\<close>,
  which arises when a typed array is read out of range (the read gives
  \<open>undefined\<close>, and every arithmetic operation on it gives \<open>NaN\<close>, which is
  absorbing for \<open>+\<close>, \<open>*\<close> and \<open>/\<close>). A possibly-\<open>NaN\<close> number is a
  \<^typ>\<open>real option\<close> with \<open>None\<close> for \<open>NaN\<close>.

  \<open>THREE.Vector3\<close> and \<open>THREE.Vector2\<close> are library classes; only their
  coordinates, \<open>dot\<close> and \<open>crossVectors\<close> are used.
\<close>

datatype vector3 = Vector3 (v3x: real) (v3y: real) (v3z: real)

datatype vector2 = Vector2 (v2x: real) (v2y: real)

definition crossVectors :: "vector3 \<Rightarrow> vector3 \<Rightarrow> vector3" where
  "crossVectors a b =
     Vector3 (v3y a * v3z b - v3z a * v3y b)
             (v3z a * v3x b - v3x a * v3z b)
             (v3x a * v3y b - v3y a * v3x b)"

definition dot :: "vector3 \<Rightarrow> vector3 \<Rightarrow> real" where
  "dot a b = v3x a * v3x b + v3y a * v3y b + v3z a * v3z b"

text \<open>
  A \<open>BufferGeometry\<close>: the \<open>position\<close> attribute (item size 3, so one entry per
  vertex and \<open>count\<close> is the length) and the optional index buffer.
\<close>

record bufferGeometry =
  position :: "vector3 list option"
  index :: "nat list option"

text \<open>
  A node of the scene graph. \<open>matrixWorld\<close> stands for
  \<open>v.applyMatrix4(node.matrixWorld)\<close> after \<open>updateWorldMatrix\<close>: the library's
  transform of a vertex to world space, taken as a parameter of the node.
\<close>

datatype object3d =
  Object3D (isMesh: bool) (geometry: "bufferGeometry option")
           (matrixWorld: "vector3 \<Rightarrow> vector3") (children: "object3d list")

text \<open>\<open>index.getX(i)\<close>: \<open>undefined\<close> out of range.\<close>

definition getIndexX :: "nat list \<Rightarrow> nat \<Rightarrow> nat option" where
  "getIndexX idx i = (if i < length idx then Some (idx ! i) else None)"

text \<open>
  \<open>v.set(position.getX(k), position.getY(k), position.getZ(k))\<close>: the three
  coordinates of vertex \<open>k\<close> are in range together; an \<open>undefined\<close> index or an
  index beyond \<open>count\<close> reads \<open>undefined\<close> three times.
\<close>

definition getVertex :: "vector3 list \<Rightarrow> nat option \<Rightarrow> vector3 option" where
  "getVertex pos k =
     (case k of None \<Rightarrow> None
      | Some j \<Rightarrow> if j < length pos then Some (pos ! j) else None)"

section \<open>volumeCalculator.js\<close>

definition signedVolumeOfTriangle :: "vector3 \<Rightarrow> vector3 \<Rightarrow> vector3 \<Rightarrow> real" where
  "signedVolumeOfTriangle v0 v1 v2 = dot v0 (crossVectors v1 v2) / 6"

text \<open>
  One loop body: transform the three vertices to world space and take the signed
  volume; \<open>NaN\<close> as soon as one of the reads was out of range.
\<close>

definition triangleTerm ::
  "(vector3 \<Rightarrow> vector3) \<Rightarrow> vector3 option \<Rightarrow> vector3 option \<Rightarrow> vector3 option \<Rightarrow> real option" where
  "triangleTerm W a b c =
     (case (a, b, c) of
        (Some v0, Some v1, Some v2) \<Rightarrow> Some (signedVolumeOfTriangle (W v0) (W v1) (W v2))
      | _ \<Rightarrow> None)"

definition addNum :: "real option \<Rightarrow> real option \<Rightarrow> real option" where
  "addNum a b = (case (a, b) of (Some u, Some v) \<Rightarrow> Some (u + v) | _ \<Rightarrow> None)"

function indexedLoop ::
  "(vector3 \<Rightarrow> vector3) \<Rightarrow> vector3 list \<Rightarrow> nat list \<Rightarrow> nat \<Rightarrow> real option \<Rightarrow> real option" where
  "indexedLoop W pos idx i volume =
     (if i < length idx then
        let i0 = getIndexX idx i; i1 = getIndexX idx (i + 1); i2 = getIndexX idx (i + 2)
        in indexedLoop W pos idx (i + 3)
             (addNum volume (triangleTerm W (getVertex pos i0) (getVertex pos i1) (getVertex pos i2)))
      else volume)"
  by pat_completeness auto
termination
  by (relation "measure (\<lambda>(W, pos, idx, i, volume). length idx - i)") auto

declare indexedLoop.simps [simp del]

function nonIndexedLoop ::
  "(vector3 \<Rightarrow> vector3) \<Rightarrow> vector3 list \<Rightarrow> nat \<Rightarrow> real option \<Rightarrow> real option" where
  "nonIndexedLoop W pos i volume =
     (if i < length pos then
        nonIndexedLoop W pos (i + 3)
          (addNum volume
             (triangleTerm W (getVertex pos (Some i)) (getVertex pos (Some (i + 1)))
                (getVertex pos (Some (i + 2)))))
      else volume)"
  by pat_completeness auto
termination
  by (relation "measure (\<lambda>(W, pos, i, volume). length pos - i)") auto

declare nonIndexedLoop.simps [simp del]

definition calculateMeshVolume :: "object3d \<Rightarrow> real option" where
  "calculateMeshVolume mesh =
     (case geometry mesh of
        None \<Rightarrow> Some 0
      | Some g \<Rightarrow>
          (case position g of
             None \<Rightarrow> Some 0
           | Some pos \<Rightarrow>
               (case index g of
                  Some idx \<Rightarrow> indexedLoop (matrixWorld mesh) pos idx 0 (Some 0)
                | None \<Rightarrow> nonIndexedLoop (matrixWorld mesh) pos 0 (Some 0))))"

record geometryStats =
  vertices :: nat
  triangles :: nat

definition countGeometryStats :: "bufferGeometry \<Rightarrow> geometryStats" where
  "countGeometryStats g =
     (case position g of
        None \<Rightarrow> \<lparr> vertices = 0, triangles = 0 \<rparr>
      | Some pos \<Rightarrow>
          \<lparr> vertices = length pos,
            triangles = (case index g of Some idx \<Rightarrow> length idx div 3
                         | None \<Rightarrow> length pos div 3) \<rparr>)"

section \<open>baseFill.js\<close>

subsection \<open>Convex hull (Graham scan)\<close>

definition crossProduct :: "vector2 \<Rightarrow> vector2 \<Rightarrow> vector2 \<Rightarrow> real" where
  "crossProduct o' a b =
     (v2x a - v2x o') * (v2y b - v2y o') - (v2y a - v2y o') * (v2x b - v2x o')"

text \<open>
  The floating-point operations of the engine that the comparator uses, each as
  the number it returns: \<open>Math.atan2(y, x)\<close> and \<open>x ** 2\<close> (both left to the
  implementation by the language, up to an approximation), and the rounding
  \<open>rnd\<close> of the exact result of a sum or a difference to a number of the engine.
  Nothing is assumed of them here; what a statement needs of the engine is among
  its hypotheses. Since the two zeros are one number here, a point sequence with
  a coordinate \<open>-0\<close> (for which \<open>Math.atan2\<close> tells \<open>(0, -0)\<close> from \<open>(0, 0)\<close>) is
  not among the inputs of the model.
\<close>

record engine =
  mathAtan2 :: "real \<Rightarrow> real \<Rightarrow> real"
  pow2 :: "real \<Rightarrow> real"
  rnd :: "real \<Rightarrow> real"

text \<open>
  The comparator passed to \<open>sort\<close>: polar angle around the pivot, nearer first.
  The difference it returns is rounded as well, but the rounded difference of two
  numbers has the sign of the exact one and is zero only when they are equal, and
  the sort reads nothing but the sign.
\<close>

definition compareAngle :: "engine \<Rightarrow> vector2 \<Rightarrow> vector2 \<Rightarrow> vector2 \<Rightarrow> real" where
  "compareAngle E pivot a b =
     (let angleA = mathAtan2 E (rnd E (v2y a - v2y pivot)) (rnd E (v2x a - v2x pivot));
          angleB = mathAtan2 E (rnd E (v2y b - v2y pivot)) (rnd E (v2x b - v2x pivot))
      in if angleA \<noteq> angleB then angleA - angleB
         else
           let distA = rnd E (pow2 E (rnd E (v2x a - v2x pivot)) +
                              pow2 E (rnd E (v2y a - v2y pivot)));
               distB = rnd E (pow2 E (rnd E (v2x b - v2x pivot)) +
                              pow2 E (rnd E (v2y b - v2y pivot)))
           in distA - distB)"

text \<open>
  \<open>Array.prototype.sort\<close> with a comparator is a stable sort: an element goes
  before another when the comparator is negative, and equal elements keep their
  order. Insertion from the right is such a sort.
\<close>

fun insertBy :: "('a \<Rightarrow> 'a \<Rightarrow> real) \<Rightarrow> 'a \<Rightarrow> 'a list \<Rightarrow> 'a list" where
  "insertBy cmp x [] = [x]"
| "insertBy cmp x (y # ys) = (if cmp x y \<le> 0 then x # y # ys else y # insertBy cmp x ys)"

fun sortBy :: "('a \<Rightarrow> 'a \<Rightarrow> real) \<Rightarrow> 'a list \<Rightarrow> 'a list" where
  "sortBy cmp [] = []"
| "sortBy cmp (x # xs) = insertBy cmp x (sortBy cmp xs)"

text \<open>The search for the lowest point, leftmost on a tie.\<close>

function findStart :: "vector2 list \<Rightarrow> nat \<Rightarrow> nat \<Rightarrow> nat" where
  "findStart points i start =
     (if i < length points then
        findStart points (i + 1)
          (if v2y (points ! i) < v2y (points ! start) \<or>
              (v2y (points ! i) = v2y (points ! start) \<and> v2x (points ! i) < v2x (points ! start))
           then i else start)
      else start)"
  by pat_completeness auto
termination
  by (relation "measure (\<lambda>(points, i, start). length points - i)") auto

declare findStart.simps [simp del]

text \<open>
  The inner \<open>while\<close> loop: the top of the stack is the last element. (The
  source's variable \<open>hull\<close> is written \<open>hull'\<close>, since \<open>hull\<close> is an operator of
  the library.)
\<close>

function popLoop :: "vector2 list \<Rightarrow> vector2 \<Rightarrow> vector2 list" where
  "popLoop hull' point =
     (if length hull' > 1 \<and>
         crossProduct (hull' ! (length hull' - 2)) (hull' ! (length hull' - 1)) point \<le> 0
      then popLoop (butlast hull') point
      else hull')"
  by pat_completeness auto
termination
  by (relation "measure (\<lambda>(hull', point). length hull')") auto

declare popLoop.simps [simp del]

fun buildHull :: "vector2 list \<Rightarrow> vector2 list \<Rightarrow> vector2 list" where
  "buildHull hull' [] = hull'"
| "buildHull hull' (point # rest) = buildHull (popLoop hull' point @ [point]) rest"

text \<open>
  The function swaps inside the array it was given, so it returns two things: the
  hull, and the caller's array as it is after the call. With fewer than three
  points the array itself is returned.
\<close>

definition computeConvexHull2D ::
  "engine \<Rightarrow> vector2 list \<Rightarrow> vector2 list \<times> vector2 list" where
  "computeConvexHull2D E points =
     (if length points < 3 then (points, points)
      else
        let start = findStart points 1 0;
            points' = (points[0 := points ! start])[start := points ! 0];
            pivot = points' ! 0;
            sorted = sortBy (compareAngle E pivot) (drop 1 points');
            hull' = buildHull [pivot] sorted
        in (hull', points'))"

subsection \<open>Polygon area\<close>

function areaLoop :: "vector2 list \<Rightarrow> nat \<Rightarrow> real \<Rightarrow> real" where
  "areaLoop points i area =
     (if i < length points then
        let j = (i + 1) mod length points
        in areaLoop points (i + 1)
             (area + v2x (points ! i) * v2y (points ! j) - v2x (points ! j) * v2y (points ! i))
      else area)"
  by pat_completeness auto
termination
  by (relation "measure (\<lambda>(points, i, area). length points - i)") auto

declare areaLoop.simps [simp del]

definition calculateShapeArea :: "vector2 list \<Rightarrow> real" where
  "calculateShapeArea points = areaLoop points 0 0 / 2"

subsection \<open>Base fill\<close>

text \<open>\<open>model.traverse(callback)\<close>: the node itself, then its children in order.\<close>

fun traverse :: "object3d \<Rightarrow> object3d list" where
  "traverse (Object3D m g W cs) = Object3D m g W cs # concat (map traverse cs)"

text \<open>The callback: the world-space vertices of a mesh, projected onto the XZ plane.\<close>

definition projectMesh :: "object3d \<Rightarrow> vector2 list" where
  "projectMesh child =
     (if isMesh child then
        (case geometry child of
           None \<Rightarrow> []
         | Some g \<Rightarrow>
             (case position g of
                None \<Rightarrow> []
              | Some pos \<Rightarrow>
                  map (\<lambda>v. let vertex = matrixWorld child v
                           in Vector2 (v3x vertex) (v3z vertex)) pos))
      else [])"

definition collectProjectedPoints :: "object3d \<Rightarrow> vector2 list" where
  "collectProjectedPoints model = concat (map projectMesh (traverse model))"

text \<open>The result of \<open>calculateBoundingBox\<close>; the base fill reads \<open>bbox.min.y\<close> only.\<close>

record boundingBox =
  bb_min :: vector3
  bb_max :: vector3
  bb_size :: vector3
  bb_center :: vector3

text \<open>
  The mesh that is returned: an \<open>ExtrudeGeometry\<close> of the hull's shape with the
  given depth, named \<open>BaseFill\<close>.
\<close>

record fillMesh =
  shape :: "vector2 list"
  depth :: real
  name :: string

record baseFill =
  mesh :: "fillMesh option"
  volume :: real

definition createBaseFill :: "engine \<Rightarrow> object3d \<Rightarrow> boundingBox \<Rightarrow> baseFill" where
  "createBaseFill E model bbox =
     (let projectedPoints = collectProjectedPoints model
      in if length projectedPoints < 3 then \<lparr> mesh = None, volume = 0 \<rparr>
         else
           let hull' = fst (computeConvexHull2D E projectedPoints)
           in if length hull' < 3 then \<lparr> mesh = None, volume = 0 \<rparr>
              else
                let fillHeight = max 0 (v3y (bb_min bbox))
                in if fillHeight \<le> 0.001 then \<lparr> mesh = None, volume = 0 \<rparr>
                   else
                     let area = \<bar>calculateShapeArea hull'\<bar>;
                         vol = area * fillHeight
                     in \<lparr> mesh = Some \<lparr> shape = hull', depth = fillHeight, name = ''BaseFill'' \<rparr>,
                          volume = vol \<rparr>)"

section \<open>Notions of the specification and of the proofs\<close>

subsection \<open>Triangle lists\<close>

text \<open>The triangles of a buffer: consecutive groups of three, a shorter rest dropped.\<close>

fun triples :: "'a list \<Rightarrow> ('a \<times> 'a \<times> 'a) list" where
  "triples (a # b # c # r) = (a, b, c) # triples r"
| "triples [] = []"
| "triples [a] = []"
| "triples [a, b] = []"

text \<open>The tetrahedron sum of a list of world-space triangles.\<close>

definition tetraSum :: "(vector3 \<times> vector3 \<times> vector3) list \<Rightarrow> real" where
  "tetraSum ts = (\<Sum>(v0, v1, v2) \<leftarrow> ts. dot v0 (crossVectors v1 v2) / 6)"

text \<open>
  The triangle list of a mesh in world space: the indexed vertices when there is an
  index buffer, the vertices in sequence otherwise.
\<close>

definition worldTriangles ::
  "(vector3 \<Rightarrow> vector3) \<Rightarrow> vector3 list \<Rightarrow> nat list option \<Rightarrow> (vector3 \<times> vector3 \<times> vector3) list" where
  "worldTriangles W pos ix =
     triples (map W (case ix of Some idx \<Rightarrow> map (\<lambda>k. pos ! k) idx | None \<Rightarrow> pos))"

text \<open>
  The invariant of a mesh in the data model: the count is a multiple of three, and
  every index is below the vertex count.
\<close>

definition meshInvariant :: "vector3 list \<Rightarrow> nat list option \<Rightarrow> bool" where
  "meshInvariant pos ix =
     (case ix of
        Some idx \<Rightarrow> 3 dvd length idx \<and> (\<forall>k \<in> set idx. k < length pos)
      | None \<Rightarrow> 3 dvd length pos)"

text \<open>
  The loops of \<open>calculateMeshVolume\<close> step through a buffer three entries at a
  time. Over the list of the vertices they read, the same computation is the
  following recursion; an incomplete last group reads out of range.
\<close>

fun chunkSum :: "(vector3 \<Rightarrow> vector3) \<Rightarrow> vector3 option list \<Rightarrow> real option" where
  "chunkSum W [] = Some 0"
| "chunkSum W (a # b # c # r) = addNum (triangleTerm W a b c) (chunkSum W r)"
| "chunkSum W [a] = None"
| "chunkSum W [a, b] = None"

subsection \<open>Reversed winding\<close>

text \<open>
  Reversing the winding of a triangle swaps two of its vertices. Which two may
  differ from triangle to triangle: \<open>sw t\<close> is the choice for triangle \<open>t\<close>.
  An incomplete last group is left as it is.
\<close>

datatype swap = Swap01 | Swap12 | Swap02

fun swapTriple :: "swap \<Rightarrow> 'a \<Rightarrow> 'a \<Rightarrow> 'a \<Rightarrow> 'a list" where
  "swapTriple Swap01 a b c = [b, a, c]"
| "swapTriple Swap12 a b c = [a, c, b]"
| "swapTriple Swap02 a b c = [c, b, a]"

fun reverseTriples :: "(nat \<Rightarrow> swap) \<Rightarrow> nat \<Rightarrow> 'a list \<Rightarrow> 'a list" where
  "reverseTriples sw t (a # b # c # r) = swapTriple (sw t) a b c @ reverseTriples sw (Suc t) r"
| "reverseTriples sw t [] = []"
| "reverseTriples sw t [a] = [a]"
| "reverseTriples sw t [a, b] = [a, b]"

definition reverseGeometry :: "(nat \<Rightarrow> swap) \<Rightarrow> bufferGeometry \<Rightarrow> bufferGeometry" where
  "reverseGeometry sw g =
     (case index g of
        Some idx \<Rightarrow> g\<lparr> index := Some (reverseTriples sw 0 idx) \<rparr>
      | None \<Rightarrow> g\<lparr> position := map_option (reverseTriples sw 0) (position g) \<rparr>)"

definition reverseWinding :: "(nat \<Rightarrow> swap) \<Rightarrow> object3d \<Rightarrow> object3d" where
  "reverseWinding sw m =
     Object3D (isMesh m) (map_option (reverseGeometry sw) (geometry m)) (matrixWorld m) (children m)"

subsection \<open>Shoelace formula\<close>

definition shoelaceTerm :: "vector2 list \<Rightarrow> nat \<Rightarrow> real" where
  "shoelaceTerm ps i =
     v2x (ps ! i) * v2y (ps ! ((i + 1) mod length ps)) -
     v2x (ps ! ((i + 1) mod length ps)) * v2y (ps ! i)"

definition shoelace :: "vector2 list \<Rightarrow> real" where
  "shoelace ps = 0.5 * (\<Sum>i<length ps. shoelaceTerm ps i)"

subsection \<open>A raised square\<close>

text \<open>
  A model whose footprint is the 10 by 10 square, two units above the ground, and
  its bounding box.
\<close>

definition squareModel :: object3d where
  "squareModel =
     Object3D True
       (Some \<lparr> position = Some [Vector3 0 2 0, Vector3 10 2 0, Vector3 10 2 10, Vector3 0 2 10],
               index = None \<rparr>) (\<lambda>v. v) []"

definition squareBox :: boundingBox where
  "squareBox = \<lparr> bb_min = Vector3 0 2 0, bb_max = Vector3 10 2 10,
                 bb_size = Vector3 10 0 10, bb_center = Vector3 5 2 5 \<rparr>"

subsection \<open>Orientation and angular order\<close>

text \<open>
  The inner product of \<open>a - p\<close> and \<open>b - p\<close>, and the order in which the scan
  meets the points around the pivot \<open>p\<close>: \<open>a\<close> is strictly to the right of the ray
  from \<open>p\<close> to \<open>b\<close>, or \<open>a\<close> lies on the segment from \<open>p\<close> to \<open>b\<close>.
\<close>

definition dotFrom :: "vector2 \<Rightarrow> vector2 \<Rightarrow> vector2 \<Rightarrow> real" where
  "dotFrom p a b = (v2x a - v2x p) * (v2x b - v2x p) + (v2y a - v2y p) * (v2y b - v2y p)"

definition angularBefore :: "vector2 \<Rightarrow> vector2 \<Rightarrow> vector2 \<Rightarrow> bool" where
  "angularBefore p a b \<longleftrightarrow>
     0 < crossProduct p a b \<or> (crossProduct p a b = 0 \<and> dotFrom p a a \<le> dotFrom p a b)"

text \<open>The test of the pivot search: lower, or equally low and further left.\<close>

definition lexLess :: "vector2 \<Rightarrow> vector2 \<Rightarrow> bool" where
  "lexLess a b \<longleftrightarrow> v2y a < v2y b \<or> (v2y a = v2y b \<and> v2x a < v2x b)"

text \<open>The two keys that the comparator computes for a point, as the engine returns them.\<close>

definition angleKey :: "engine \<Rightarrow> vector2 \<Rightarrow> vector2 \<Rightarrow> real" where
  "angleKey E p a = mathAtan2 E (rnd E (v2y a - v2y p)) (rnd E (v2x a - v2x p))"

definition distKey :: "engine \<Rightarrow> vector2 \<Rightarrow> vector2 \<Rightarrow> real" where
  "distKey E p a = rnd E (pow2 E (rnd E (v2x a - v2x p)) + pow2 E (rnd E (v2y a - v2y p)))"

text \<open>
  What the scan needs of the comparator on a point sequence: it puts the points in
  the angular order around the pivot, and it separates distinct points.
\<close>

definition angleFaithful :: "engine \<Rightarrow> vector2 \<Rightarrow> vector2 set \<Rightarrow> bool" where
  "angleFaithful E p S \<longleftrightarrow>
     (\<forall>a \<in> S. \<forall>b \<in> S. compareAngle E p a b \<le> 0 \<longrightarrow> angularBefore p a b)"

definition separating :: "engine \<Rightarrow> vector2 \<Rightarrow> vector2 set \<Rightarrow> bool" where
  "separating E p S \<longleftrightarrow>
     (\<forall>a \<in> S. \<forall>b \<in> S. compareAngle E p a b \<le> 0 \<longrightarrow> compareAngle E p b a \<le> 0 \<longrightarrow> a = b)"

text \<open>
  Three engines that serve as examples. The first computes without rounding:
  \<open>exactAtan2\<close> is the mathematical function, the angle in \<open>(-\<pi>, \<pi>]\<close> of the
  point \<open>(x, y)\<close> and \<open>0\<close> at the origin. The second has the multiples of a quarter
  as its numbers and rounds down to them.
\<close>

definition exactAtan2 :: "real \<Rightarrow> real \<Rightarrow> real" where
  "exactAtan2 y x =
     (if 0 < x then arctan (y / x)
      else if x < 0 then (if 0 \<le> y then arctan (y / x) + pi else arctan (y / x) - pi)
      else if 0 < y then pi / 2
      else if y < 0 then - (pi / 2)
      else 0)"

definition exactEngine :: engine where
  "exactEngine = \<lparr> mathAtan2 = exactAtan2, pow2 = (\<lambda>x. x\<^sup>2), rnd = (\<lambda>x. x) \<rparr>"

definition quarterEngine :: engine where
  "quarterEngine =
     \<lparr> mathAtan2 = exactAtan2, pow2 = (\<lambda>x. x\<^sup>2), rnd = (\<lambda>x. of_int \<lfloor>4 * x\<rfloor> / 4) \<rparr>"

text \<open>
  The third has the arithmetic of IEEE 754 doubles: the exact result of a sum or
  a difference is rounded to the nearest number with a significand of 53 bits,
  to the one with an even significand on a tie (\<open>roundDouble\<close>, for results in
  the normal range: neither overflow nor subnormal numbers are represented), and
  a square is correctly rounded. \<open>Math.atan2\<close> is its parameter.
\<close>

definition roundEven :: "real \<Rightarrow> int" where
  "roundEven x =
     (let f = \<lfloor>x\<rfloor>
      in if x - of_int f < 1 / 2 then f
         else if 1 / 2 < x - of_int f then f + 1
         else if even f then f else f + 1)"

definition roundDouble :: "real \<Rightarrow> real" where
  "roundDouble x =
     (if x = 0 then 0
      else let e = \<lfloor>log 2 \<bar>x\<bar>\<rfloor> - 52
           in of_int (roundEven (x / 2 powr of_int e)) * 2 powr of_int e)"

definition doubleEngine :: "(real \<Rightarrow> real \<Rightarrow> real) \<Rightarrow> engine" where
  "doubleEngine atn = \<lparr> mathAtan2 = atn, pow2 = (\<lambda>x. roundDouble (x\<^sup>2)), rnd = roundDouble \<rparr>"

text \<open>The keys of the engine without rounding.\<close>

definition polarAngle :: "vector2 \<Rightarrow> vector2 \<Rightarrow> real" where
  "polarAngle p a = exactAtan2 (v2y a - v2y p) (v2x a - v2x p)"

definition sqDist :: "vector2 \<Rightarrow> vector2 \<Rightarrow> real" where
  "sqDist p a = (v2x a - v2x p)\<^sup>2 + (v2y a - v2y p)\<^sup>2"

text \<open>
  For at least three points: the pivot that \<open>computeConvexHull2D\<close> selects (the
  element swapped to position 0), and the slice \<open>points.slice(1)\<close> after the swap.
\<close>

definition pivotOf :: "vector2 list \<Rightarrow> vector2" where
  "pivotOf pts = pts ! findStart pts 1 0"

definition restOf :: "vector2 list \<Rightarrow> vector2 list" where
  "restOf pts =
     drop 1 ((pts[0 := pts ! findStart pts 1 0])[findStart pts 1 0 := pts ! 0])"

text \<open>Equality of two polygons up to the choice of the starting vertex.\<close>

definition cyclicRotation :: "'a list \<Rightarrow> 'a list \<Rightarrow> bool" where
  "cyclicRotation xs ys \<longleftrightarrow> (\<exists>k \<in> {..length xs}. ys = rotate k xs)"

text \<open>
  A point is on or inside a counter-clockwise convex polygon when it is on or to
  the left of every directed edge, the closing edge included.
\<close>

definition insideOrOn :: "vector2 list \<Rightarrow> vector2 \<Rightarrow> bool" where
  "insideOrOn poly q \<longleftrightarrow>
     (\<forall>i<length poly. 0 \<le> crossProduct (poly ! i) (poly ! ((i + 1) mod length poly)) q)"

subsection \<open>The scan on a stack with its top in front\<close>

text \<open>
  \<open>popLoop\<close> and \<open>buildHull\<close> keep the top of the stack at the end of the array.
  For the proofs the same loops are written on the reversed list; \<open>popLoop_rev\<close>
  and \<open>buildHull_rev\<close> below show that they compute the same stack.
\<close>

fun popRev :: "vector2 list \<Rightarrow> vector2 \<Rightarrow> vector2 list" where
  "popRev (b # a # hs) s = (if crossProduct a b s \<le> 0 then popRev (a # hs) s else b # a # hs)"
| "popRev [b] s = [b]"
| "popRev [] s = []"

fun buildRev :: "vector2 list \<Rightarrow> vector2 list \<Rightarrow> vector2 list" where
  "buildRev st [] = st"
| "buildRev st (s # ss) = buildRev (s # popRev st s) ss"

text \<open>
  Properties of a stack \<open>h\<^sub>m, \<dots>, h\<^sub>1, p\<close> (top first): a point is on or to the left of
  every edge \<open>h\<^sub>j \<rightarrow> h\<^sub>j\<^sub>+\<^sub>1\<close>; every three consecutive vertices make a strict left
  turn; the vertices above \<open>h\<^sub>1\<close> are met in strictly increasing angle around \<open>p\<close>.
\<close>

fun leftOfChain :: "vector2 \<Rightarrow> vector2 list \<Rightarrow> bool" where
  "leftOfChain q (b # a # r) \<longleftrightarrow> 0 \<le> crossProduct a b q \<and> leftOfChain q (a # r)"
| "leftOfChain q [a] \<longleftrightarrow> True"
| "leftOfChain q [] \<longleftrightarrow> True"

fun chainConvex :: "vector2 list \<Rightarrow> bool" where
  "chainConvex (c # b # a # r) \<longleftrightarrow> 0 < crossProduct a b c \<and> chainConvex (b # a # r)"
| "chainConvex [b, a] \<longleftrightarrow> True"
| "chainConvex [a] \<longleftrightarrow> True"
| "chainConvex [] \<longleftrightarrow> True"

fun chainAngular :: "vector2 \<Rightarrow> vector2 list \<Rightarrow> bool" where
  "chainAngular p (b # a # z # r) \<longleftrightarrow> 0 < crossProduct p a b \<and> chainAngular p (a # z # r)"
| "chainAngular p [b, a] \<longleftrightarrow> True"
| "chainAngular p [a] \<longleftrightarrow> True"
| "chainAngular p [] \<longleftrightarrow> True"

text \<open>
  The invariant of the outer loop, for the pivot \<open>p\<close>, the set \<open>P\<close> of the points
  seen so far (the pivot included) and the stack.
\<close>

definition scanInv :: "vector2 \<Rightarrow> vector2 set \<Rightarrow> vector2 list \<Rightarrow> bool" where
  "scanInv p P st \<longleftrightarrow>
     st \<noteq> [] \<and> last st = p \<and> set st \<subseteq> P \<and> p \<in> P \<and>
     (\<forall>q \<in> P. leftOfChain q st) \<and> (\<forall>q \<in> P. angularBefore p q (hd st)) \<and>
     chainConvex st \<and> chainAngular p st"

section \<open>Volume estimator\<close>

lemma addNum_assoc: "addNum (addNum a b) c = addNum a (addNum b c)"
  by (cases a; cases b; cases c) (simp_all add: addNum_def)

lemma addNum_None [simp]: "addNum None b = None" "addNum a None = None"
  by (simp_all add: addNum_def split: option.splits)

lemma addNum_zero [simp]: "addNum a (Some 0) = a" "addNum (Some 0) a = a"
  by (cases a; simp add: addNum_def)+

lemma triangleTerm_None [simp]:
  "triangleTerm W None b c = None" "triangleTerm W a None c = None" "triangleTerm W a b None = None"
  by (simp_all add: triangleTerm_def split: option.splits)

lemma getVertex_None [simp]: "getVertex pos None = None"
  by (simp add: getVertex_def)

lemma indexedLoop_chunkSum:
  "indexedLoop W pos idx i vol =
     addNum vol (chunkSum W (map (\<lambda>k. getVertex pos (Some k)) (drop i idx)))"
proof (induction W pos idx i vol rule: indexedLoop.induct)
  case (1 W pos idx i vol)
  show ?case
  proof (cases "i < length idx")
    case False
    then show ?thesis by (subst indexedLoop.simps) simp
  next
    case True
    note lt = True
    have d0: "drop i idx = idx ! i # drop (Suc i) idx"
      using lt by (simp add: Cons_nth_drop_Suc)
    show ?thesis
    proof (cases "i + 1 < length idx")
      case False
      then have "drop (Suc i) idx = []" by simp
      with lt False 1 show ?thesis
        by (subst indexedLoop.simps) (simp add: d0 getIndexX_def Let_def)
    next
      case True
      note lt1 = True
      have d1: "drop (Suc i) idx = idx ! (i + 1) # drop (Suc (Suc i)) idx"
        using lt1 by (simp add: Cons_nth_drop_Suc)
      show ?thesis
      proof (cases "i + 2 < length idx")
        case False
        then have "drop (Suc (Suc i)) idx = []" by simp
        with lt lt1 False 1 show ?thesis
          by (subst indexedLoop.simps) (simp add: d0 d1 getIndexX_def Let_def)
      next
        case True
        have d2: "drop (Suc (Suc i)) idx = idx ! (i + 2) # drop (i + 3) idx"
          using True by (simp add: Cons_nth_drop_Suc numeral_3_eq_3)
        from lt lt1 True 1 show ?thesis
          by (subst indexedLoop.simps) (simp add: d0 d1 d2 getIndexX_def Let_def addNum_assoc)
      qed
    qed
  qed
qed


lemma nonIndexedLoop_chunkSum:
  "nonIndexedLoop W pos i vol = addNum vol (chunkSum W (map Some (drop i pos)))"
proof (induction W pos i vol rule: nonIndexedLoop.induct)
  case (1 W pos i vol)
  show ?case
  proof (cases "i < length pos")
    case False
    then show ?thesis by (subst nonIndexedLoop.simps) simp
  next
    case True
    note lt = True
    have d0: "drop i pos = pos ! i # drop (Suc i) pos"
      using lt by (simp add: Cons_nth_drop_Suc)
    show ?thesis
    proof (cases "i + 1 < length pos")
      case False
      then have "drop (Suc i) pos = []" by simp
      with lt False 1 show ?thesis
        by (subst nonIndexedLoop.simps) (simp add: d0 getVertex_def)
    next
      case True
      note lt1 = True
      have d1: "drop (Suc i) pos = pos ! (i + 1) # drop (Suc (Suc i)) pos"
        using lt1 by (simp add: Cons_nth_drop_Suc)
      show ?thesis
      proof (cases "i + 2 < length pos")
        case False
        then have "drop (Suc (Suc i)) pos = []" by simp
        with lt lt1 False 1 show ?thesis
          by (subst nonIndexedLoop.simps) (simp add: d0 d1 getVertex_def)
      next
        case True
        have d2: "drop (Suc (Suc i)) pos = pos ! (i + 2) # drop (i + 3) pos"
          using True by (simp add: Cons_nth_drop_Suc numeral_3_eq_3)
        from lt lt1 True 1 show ?thesis
          by (subst nonIndexedLoop.simps) (simp add: d0 d1 d2 getVertex_def addNum_assoc)
      qed
    qed
  qed
qed

lemma chunkSum_complete:
  "3 dvd length vs \<Longrightarrow> chunkSum W (map Some vs) = Some (tetraSum (triples (map W vs)))"
proof (induction vs rule: triples.induct)
  case (1 a b c r)
  from "1.prems" have "3 dvd length r" by (simp, presburger)
  then have "chunkSum W (map Some r) = Some (tetraSum (triples (map W r)))" by (rule "1.IH")
  then show ?case
    by (simp add: addNum_def triangleTerm_def tetraSum_def signedVolumeOfTriangle_def)
next
  case 2
  show ?case by (simp add: tetraSum_def)
next
  case (3 a)
  then have False by simp
  then show ?case ..
next
  case (4 a b)
  then have False by (simp, presburger)
  then show ?case ..
qed

text \<open>
  On a mesh that satisfies the invariant of the data model (a count that is a
  multiple of three, indices in range) the estimator returns the sum of the
  tetrahedron terms over the triangle list.
\<close>

lemma calculateMeshVolume_complete:
  assumes "geometry m = Some g" and "position g = Some pos" and "meshInvariant pos (index g)"
  shows "calculateMeshVolume m = Some (tetraSum (worldTriangles (matrixWorld m) pos (index g)))"
proof (cases "index g")
  case None
  with assms have d: "3 dvd length pos"
    by (simp add: meshInvariant_def)
  have "calculateMeshVolume m = nonIndexedLoop (matrixWorld m) pos 0 (Some 0)"
    using assms None by (simp add: calculateMeshVolume_def)
  also have "\<dots> = chunkSum (matrixWorld m) (map Some pos)"
    by (simp add: nonIndexedLoop_chunkSum)
  also have "\<dots> = Some (tetraSum (triples (map (matrixWorld m) pos)))"
    using d by (rule chunkSum_complete)
  finally show ?thesis
    using None by (simp add: worldTriangles_def)
next
  case (Some idx)
  with assms have d: "3 dvd length idx" and r: "\<forall>k \<in> set idx. k < length pos"
    by (simp_all add: meshInvariant_def)
  from r have eq: "map (\<lambda>k. getVertex pos (Some k)) idx = map Some (map (\<lambda>k. pos ! k) idx)"
    by (simp add: getVertex_def)
  have "calculateMeshVolume m = indexedLoop (matrixWorld m) pos idx 0 (Some 0)"
    using assms Some by (simp add: calculateMeshVolume_def)
  also have "\<dots> = chunkSum (matrixWorld m) (map (\<lambda>k. getVertex pos (Some k)) idx)"
    by (simp add: indexedLoop_chunkSum)
  also have "\<dots> = chunkSum (matrixWorld m) (map Some (map (\<lambda>k. pos ! k) idx))"
    by (simp only: eq)
  also have "\<dots> = Some (tetraSum (triples (map (matrixWorld m) (map (\<lambda>k. pos ! k) idx))))"
    by (rule chunkSum_complete) (simp add: d)
  finally show ?thesis
    using Some by (simp add: worldTriangles_def)
qed


text \<open>
  Claim C1 says that for every mesh with a position attribute the returned volume
  is the sum of \<open>dot(v0, cross(v1, v2)) / 6\<close> over the triangles of its triangle
  list. A non-indexed mesh of four vertices has one triangle, and the sum over its
  triangle list is \<open>1 / 6\<close>; the loop runs while \<open>i < count\<close>, starts a second
  iteration at \<open>i = 3\<close>, reads the entries 4 and 5 that do not exist, and the
  returned volume is \<open>NaN\<close>. The same holds with an index buffer of four entries.
\<close>

theorem calculateMeshVolume_not_tetrahedron_sum:
  "calculateMeshVolume
     (Object3D True
        (Some \<lparr> position = Some [Vector3 1 0 0, Vector3 0 1 0, Vector3 0 0 1, Vector3 1 1 1],
                index = None \<rparr>) (\<lambda>v. v) []) = None \<and>
   tetraSum (worldTriangles (\<lambda>v. v)
        [Vector3 1 0 0, Vector3 0 1 0, Vector3 0 0 1, Vector3 1 1 1] None) = 1 / 6 \<and>
   calculateMeshVolume
     (Object3D True
        (Some \<lparr> position = Some [Vector3 1 0 0, Vector3 0 1 0, Vector3 0 0 1],
                index = Some [0, 1, 2, 0] \<rparr>) (\<lambda>v. v) []) = None \<and>
   tetraSum (worldTriangles (\<lambda>v. v)
        [Vector3 1 0 0, Vector3 0 1 0, Vector3 0 0 1] (Some [0, 1, 2, 0])) = 1 / 6"
  by (simp add: calculateMeshVolume_def indexedLoop_chunkSum nonIndexedLoop_chunkSum
      worldTriangles_def tetraSum_def signedVolumeOfTriangle_def dot_def crossVectors_def)

lemma signedVolume_swap:
  "signedVolumeOfTriangle b a c = - signedVolumeOfTriangle a b c"
  "signedVolumeOfTriangle a c b = - signedVolumeOfTriangle a b c"
  "signedVolumeOfTriangle c b a = - signedVolumeOfTriangle a b c"
proof -
  have 1: "dot b (crossVectors a c) = - dot a (crossVectors b c)"
    unfolding dot_def crossVectors_def vector3.sel by algebra
  have 2: "dot a (crossVectors c b) = - dot a (crossVectors b c)"
    unfolding dot_def crossVectors_def vector3.sel by algebra
  have 3: "dot c (crossVectors b a) = - dot a (crossVectors b c)"
    unfolding dot_def crossVectors_def vector3.sel by algebra
  show "signedVolumeOfTriangle b a c = - signedVolumeOfTriangle a b c"
    unfolding signedVolumeOfTriangle_def by (simp only: 1 minus_divide_left)
  show "signedVolumeOfTriangle a c b = - signedVolumeOfTriangle a b c"
    unfolding signedVolumeOfTriangle_def by (simp only: 2 minus_divide_left)
  show "signedVolumeOfTriangle c b a = - signedVolumeOfTriangle a b c"
    unfolding signedVolumeOfTriangle_def by (simp only: 3 minus_divide_left)
qed

lemma triangleTerm_swap:
  "triangleTerm W b a c = map_option uminus (triangleTerm W a b c)"
  "triangleTerm W a c b = map_option uminus (triangleTerm W a b c)"
  "triangleTerm W c b a = map_option uminus (triangleTerm W a b c)"
proof -
  show "triangleTerm W b a c = map_option uminus (triangleTerm W a b c)"
    by (cases a; cases b; cases c; simp add: triangleTerm_def; rule signedVolume_swap)
  show "triangleTerm W a c b = map_option uminus (triangleTerm W a b c)"
    by (cases a; cases b; cases c; simp add: triangleTerm_def; rule signedVolume_swap)
  show "triangleTerm W c b a = map_option uminus (triangleTerm W a b c)"
    by (cases a; cases b; cases c; simp add: triangleTerm_def; rule signedVolume_swap)
qed

lemma addNum_uminus:
  "addNum (map_option uminus a) (map_option uminus b) = map_option uminus (addNum a b)"
  by (cases a; cases b) (simp_all add: addNum_def)

lemma chunkSum_reverseTriples:
  "chunkSum W (map f (reverseTriples sw t xs)) = map_option uminus (chunkSum W (map f xs))"
proof (induction sw t xs rule: reverseTriples.induct)
  case (1 sw t a b c r)
  let ?T = "triangleTerm W (f a) (f b) (f c)"
  have s1: "triangleTerm W (f b) (f a) (f c) = map_option uminus ?T"
    and s2: "triangleTerm W (f a) (f c) (f b) = map_option uminus ?T"
    and s3: "triangleTerm W (f c) (f b) (f a) = map_option uminus ?T"
    by (rule triangleTerm_swap)+
  from "1.IH" show ?case
    by (cases "sw t") (simp_all add: s1 s2 s3 addNum_uminus)
qed simp_all

lemma length_reverseTriples [simp]: "length (reverseTriples sw t xs) = length xs"
proof (induction sw t xs rule: reverseTriples.induct)
  case (1 sw t a b c r)
  then show ?case by (cases "sw t") simp_all
qed simp_all

text \<open>
  Claim C7. Reversing the winding of every triangle of a mesh (swapping two
  vertices of each triangle) negates the output of \<open>calculateMeshVolume\<close> and
  leaves its absolute value unchanged. A \<open>NaN\<close> output stays \<open>NaN\<close>.
\<close>

theorem reverseWinding_negates:
  "calculateMeshVolume (reverseWinding sw m) = map_option uminus (calculateMeshVolume m) \<and>
   map_option abs (calculateMeshVolume (reverseWinding sw m)) =
     map_option abs (calculateMeshVolume m)"
proof -
  have neg: "calculateMeshVolume (reverseWinding sw m) = map_option uminus (calculateMeshVolume m)"
  proof (cases "geometry m")
    case None
    then show ?thesis by (simp add: calculateMeshVolume_def reverseWinding_def)
  next
    case (Some g)
    note g = Some
    show ?thesis
    proof (cases "position g")
      case None
      with g show ?thesis
        by (simp add: calculateMeshVolume_def reverseWinding_def reverseGeometry_def
            split: option.splits)
    next
      case (Some pos)
      note pos = Some
      show ?thesis
      proof (cases "index g")
        case None
        have "chunkSum (matrixWorld m) (map Some (reverseTriples sw 0 pos)) =
              map_option uminus (chunkSum (matrixWorld m) (map Some pos))"
          by (rule chunkSum_reverseTriples)
        with g pos None show ?thesis
          by (simp add: calculateMeshVolume_def reverseWinding_def reverseGeometry_def
              nonIndexedLoop_chunkSum)
      next
        case (Some idx)
        have "chunkSum (matrixWorld m) (map (\<lambda>k. getVertex pos (Some k)) (reverseTriples sw 0 idx)) =
              map_option uminus (chunkSum (matrixWorld m) (map (\<lambda>k. getVertex pos (Some k)) idx))"
          by (rule chunkSum_reverseTriples)
        with g pos Some show ?thesis
          by (simp add: calculateMeshVolume_def reverseWinding_def reverseGeometry_def
              indexedLoop_chunkSum)
      qed
    qed
  qed
  have "map_option abs (map_option uminus v) = map_option abs v" for v :: "real option"
    by (cases v) simp_all
  with neg show ?thesis by simp
qed

lemma countGeometryStats_floor:
  "position g = Some pos \<Longrightarrow>
     triangles (countGeometryStats g) =
       (case index g of Some idx \<Rightarrow> length idx | None \<Rightarrow> length pos) div 3"
  by (simp add: countGeometryStats_def split: option.splits)

lemma chunkSum_partial:
  "\<not> 3 dvd length vs \<Longrightarrow> chunkSum W vs = None"
proof (induction W vs rule: chunkSum.induct)
  case (2 W a b c r)
  from "2.prems" have "\<not> 3 dvd length r" by (simp, presburger)
  then show ?case using "2.IH" by simp
qed simp_all

text \<open>
  Whenever the count is not a multiple of three, the last iteration reads out of
  range and the volume is \<open>NaN\<close>.
\<close>

lemma partial_buffer_NaN:
  assumes "geometry m = Some g" and "position g = Some pos"
    and "\<not> 3 dvd (case index g of Some idx \<Rightarrow> length idx | None \<Rightarrow> length pos)"
  shows "calculateMeshVolume m = None"
  using assms
  by (simp add: calculateMeshVolume_def indexedLoop_chunkSum nonIndexedLoop_chunkSum
      chunkSum_partial split: option.splits)

text \<open>
  Claim C5 says that a trailing partial triangle is discarded and that nothing is
  read out of range. The loops run while \<open>i < count\<close>, so with a count of four a
  second iteration starts at \<open>i = 3\<close> and reads entries 4 and 5, which do not
  exist: the result is \<open>NaN\<close>, with an index buffer and without one, while
  \<open>countGeometryStats\<close> reports one triangle.
\<close>

theorem partial_triangle_reads_out_of_range:
  "calculateMeshVolume
     (Object3D True
        (Some \<lparr> position = Some [Vector3 1 0 0, Vector3 0 1 0, Vector3 0 0 1, Vector3 1 1 1],
                index = None \<rparr>) (\<lambda>v. v) []) = None \<and>
   calculateMeshVolume
     (Object3D True
        (Some \<lparr> position = Some [Vector3 1 0 0, Vector3 0 1 0, Vector3 0 0 1],
                index = Some [0, 1, 2, 0] \<rparr>) (\<lambda>v. v) []) = None \<and>
   triangles (countGeometryStats
        \<lparr> position = Some [Vector3 1 0 0, Vector3 0 1 0, Vector3 0 0 1, Vector3 1 1 1],
          index = None \<rparr>) = 1 \<and>
   triangles (countGeometryStats
        \<lparr> position = Some [Vector3 1 0 0, Vector3 0 1 0, Vector3 0 0 1],
          index = Some [0, 1, 2, 0] \<rparr>) = 1"
  by (simp add: calculateMeshVolume_def indexedLoop_chunkSum nonIndexedLoop_chunkSum
      countGeometryStats_def)


section \<open>Polygon area\<close>

lemma areaLoop_sum:
  "areaLoop ps i acc = acc + (\<Sum>k = i..<length ps. shoelaceTerm ps k)"
proof (induction ps i acc rule: areaLoop.induct)
  case (1 ps i acc)
  show ?case
  proof (cases "i < length ps")
    case False
    then show ?thesis by (subst areaLoop.simps) simp
  next
    case True
    define j where "j = (i + 1) mod length ps"
    define acc' where "acc' = acc + v2x (ps ! i) * v2y (ps ! j) - v2x (ps ! j) * v2y (ps ! i)"
    have "areaLoop ps i acc = areaLoop ps (i + 1) acc'"
      using True by (subst areaLoop.simps) (simp add: Let_def acc'_def j_def)
    also have "\<dots> = acc' + (\<Sum>k = i + 1..<length ps. shoelaceTerm ps k)"
      unfolding acc'_def j_def by (rule "1.IH" [OF True refl])
    also have "acc' = acc + shoelaceTerm ps i"
      by (simp add: acc'_def j_def shoelaceTerm_def)
    also have "acc + shoelaceTerm ps i + (\<Sum>k = i + 1..<length ps. shoelaceTerm ps k) =
               acc + (\<Sum>k = i..<length ps. shoelaceTerm ps k)"
      using True by (simp add: sum.atLeast_Suc_lessThan)
    finally show ?thesis .
  qed
qed

lemma calculateShapeArea_shoelace: "calculateShapeArea ps = shoelace ps"
  by (simp add: calculateShapeArea_def shoelace_def areaLoop_sum lessThan_atLeast0)

lemma square_area:
  "calculateShapeArea [Vector2 0 0, Vector2 10 0, Vector2 10 10, Vector2 0 10] = 100"
  by (simp add: calculateShapeArea_shoelace shoelace_def shoelaceTerm_def)

text \<open>
  Claim C9. \<open>calculateShapeArea\<close> returns the signed shoelace value
  \<open>0.5 * \<Sum>(x\<^sub>i * y\<^sub>i\<^sub>+\<^sub>1 - x\<^sub>i\<^sub>+\<^sub>1 * y\<^sub>i)\<close> over the cyclically closed vertex
  sequence, for every list of points; the absolute area of the 10 by 10 square is
  100 within 0.01.
\<close>

theorem calculateShapeArea_is_shoelace:
  "(\<forall>ps. calculateShapeArea ps = shoelace ps) \<and>
   \<bar>\<bar>calculateShapeArea [Vector2 0 0, Vector2 10 0, Vector2 10 10, Vector2 0 10]\<bar> - 100\<bar> < 0.01"
  by (simp add: calculateShapeArea_shoelace square_area [unfolded calculateShapeArea_shoelace])

section \<open>Base fill\<close>

text \<open>
  Claim C4. If the fill height \<open>max(0, bbox.min.y)\<close> is at most the tolerance
  0.001, the result of \<open>createBaseFill\<close> has no mesh and volume 0, whatever the
  model is.
\<close>

theorem no_fill_below_tolerance:
  "max 0 (v3y (bb_min bbox)) \<le> 0.001 \<Longrightarrow>
     createBaseFill E model bbox = \<lparr> mesh = None, volume = 0 \<rparr>"
  by (simp add: createBaseFill_def Let_def)

text \<open>
  A model on the ground with five projected points: the fill height is 0.
\<close>

theorem no_fill_below_tolerance_witness:
  "max 0 (v3y (bb_min \<lparr> bb_min = Vector3 0 0 0, bb_max = Vector3 10 3 10,
                        bb_size = Vector3 10 3 10, bb_center = Vector3 5 (3 / 2) 5 \<rparr>)) \<le> 0.001 \<and>
   createBaseFill exactEngine
     (Object3D True
        (Some \<lparr> position = Some [Vector3 0 0 0, Vector3 10 0 0, Vector3 10 0 10,
                                 Vector3 0 0 10, Vector3 5 3 5],
                index = None \<rparr>) (\<lambda>v. v) [])
     \<lparr> bb_min = Vector3 0 0 0, bb_max = Vector3 10 3 10,
       bb_size = Vector3 10 3 10, bb_center = Vector3 5 (3 / 2) 5 \<rparr> =
   \<lparr> mesh = None, volume = 0 \<rparr>"
proof -
  let ?bbox = "\<lparr> bb_min = Vector3 0 0 0, bb_max = Vector3 10 3 10,
                 bb_size = Vector3 10 3 10, bb_center = Vector3 5 (3 / 2) 5 \<rparr>"
  have h: "max 0 (v3y (bb_min ?bbox)) \<le> 0.001" by simp
  from h no_fill_below_tolerance [OF h, of exactEngine] show ?thesis by blast
qed

text \<open>
  Claim C10. The volume of the result of \<open>createBaseFill\<close> is never negative, and
  it is 0 whenever the mesh is null.
\<close>

theorem createBaseFill_volume_invariant:
  "0 \<le> volume (createBaseFill E model bbox) \<and>
   (mesh (createBaseFill E model bbox) = None \<longrightarrow> volume (createBaseFill E model bbox) = 0)"
  by (simp add: createBaseFill_def Let_def)

theorem createBaseFill_volume_invariant_witness:
  "mesh (createBaseFill exactEngine (Object3D False None (\<lambda>v. v) [])
           \<lparr> bb_min = Vector3 0 0 0, bb_max = Vector3 0 0 0,
             bb_size = Vector3 0 0 0, bb_center = Vector3 0 0 0 \<rparr>) = None \<and>
   volume (createBaseFill exactEngine (Object3D False None (\<lambda>v. v) [])
           \<lparr> bb_min = Vector3 0 0 0, bb_max = Vector3 0 0 0,
             bb_size = Vector3 0 0 0, bb_center = Vector3 0 0 0 \<rparr>) = 0"
proof -
  let ?bbox = "\<lparr> bb_min = Vector3 0 0 0, bb_max = Vector3 0 0 0,
                 bb_size = Vector3 0 0 0, bb_center = Vector3 0 0 0 \<rparr>"
  have "mesh (createBaseFill exactEngine (Object3D False None (\<lambda>v. v) []) ?bbox) = None"
    by (simp add: createBaseFill_def collectProjectedPoints_def projectMesh_def)
  with createBaseFill_volume_invariant [of exactEngine "Object3D False None (\<lambda>v. v) []" ?bbox]
  show ?thesis by blast
qed

section \<open>Convex hull and base fill on concrete inputs\<close>

lemma pi_not_le_zero: "\<not> pi \<le> 0"
  using pi_gt_zero by linarith

lemma compareAngle_keys:
  "compareAngle E p a b =
     (if angleKey E p a \<noteq> angleKey E p b then angleKey E p a - angleKey E p b
      else distKey E p a - distKey E p b)"
  by (simp add: compareAngle_def angleKey_def distKey_def Let_def)

lemma exactAtan2_values:
  "exactAtan2 0 10 = 0" "exactAtan2 10 10 = pi / 4" "exactAtan2 5 5 = pi / 4"
  "exactAtan2 10 0 = pi / 2" "exactAtan2 0 2 = 0" "exactAtan2 1 1 = pi / 4"
  "exactAtan2 0 1 = 0"
  by (simp_all add: exactAtan2_def arctan_one)

lemma exactEngine_keys:
  "angleKey exactEngine p a = exactAtan2 (v2y a - v2y p) (v2x a - v2x p)"
  "distKey exactEngine p a = (v2x a - v2x p)\<^sup>2 + (v2y a - v2y p)\<^sup>2"
  by (simp_all add: angleKey_def distKey_def exactEngine_def)

text \<open>
  The square of the specification, with its centre as a fifth point: the centre
  has the direction of the far corner and is nearer, and the scan drops it.
\<close>

lemma square_hull:
  assumes "angleKey E (Vector2 0 0) (Vector2 10 0) < angleKey E (Vector2 0 0) (Vector2 5 5)"
    and "angleKey E (Vector2 0 0) (Vector2 5 5) = angleKey E (Vector2 0 0) (Vector2 10 10)"
    and "distKey E (Vector2 0 0) (Vector2 5 5) < distKey E (Vector2 0 0) (Vector2 10 10)"
    and "angleKey E (Vector2 0 0) (Vector2 10 10) < angleKey E (Vector2 0 0) (Vector2 0 10)"
  shows "computeConvexHull2D E
           [Vector2 0 0, Vector2 10 0, Vector2 10 10, Vector2 0 10, Vector2 5 5] =
         ([Vector2 0 0, Vector2 10 0, Vector2 10 10, Vector2 0 10],
          [Vector2 0 0, Vector2 10 0, Vector2 10 10, Vector2 0 10, Vector2 5 5])"
  using assms
  by (simp add: computeConvexHull2D_def findStart.simps Let_def compareAngle_keys
      popLoop.simps crossProduct_def)

lemma square_hull4:
  assumes "angleKey E (Vector2 0 0) (Vector2 10 0) < angleKey E (Vector2 0 0) (Vector2 10 10)"
    and "angleKey E (Vector2 0 0) (Vector2 10 10) < angleKey E (Vector2 0 0) (Vector2 0 10)"
  shows "computeConvexHull2D E [Vector2 0 0, Vector2 10 0, Vector2 10 10, Vector2 0 10] =
         ([Vector2 0 0, Vector2 10 0, Vector2 10 10, Vector2 0 10],
          [Vector2 0 0, Vector2 10 0, Vector2 10 10, Vector2 0 10])"
  using assms
  by (simp add: computeConvexHull2D_def findStart.simps Let_def compareAngle_keys
      popLoop.simps crossProduct_def)

lemma exactEngine_square:
  "angleKey exactEngine (Vector2 0 0) (Vector2 10 0) <
     angleKey exactEngine (Vector2 0 0) (Vector2 10 10)"
  "angleKey exactEngine (Vector2 0 0) (Vector2 10 10) <
     angleKey exactEngine (Vector2 0 0) (Vector2 0 10)"
  by (simp_all add: exactEngine_keys exactAtan2_values)

text \<open>
  Claim C6 says that the hull builder leaves the caller's point sequence unchanged.
  \<open>computeConvexHull2D\<close> swaps the lowest point to position 0 inside the array
  it was given, before it copies anything (the copy of the same function in
  \<open>test-core.js\<close> starts with \<open>const points = [...pts]\<close>). On the three points
  below the caller's array comes back in another order, on every engine; the hull
  is the one stated as soon as the engine gives the direction of \<open>(2, 0)\<close> a smaller
  angle than that of \<open>(1, 1)\<close>.
\<close>

theorem computeConvexHull2D_swaps_in_place:
  "snd (computeConvexHull2D E [Vector2 1 1, Vector2 0 0, Vector2 2 0]) =
     [Vector2 0 0, Vector2 1 1, Vector2 2 0] \<and>
   snd (computeConvexHull2D E [Vector2 1 1, Vector2 0 0, Vector2 2 0]) \<noteq>
     [Vector2 1 1, Vector2 0 0, Vector2 2 0] \<and>
   (angleKey E (Vector2 0 0) (Vector2 2 0) < angleKey E (Vector2 0 0) (Vector2 1 1) \<longrightarrow>
      computeConvexHull2D E [Vector2 1 1, Vector2 0 0, Vector2 2 0] =
        ([Vector2 0 0, Vector2 2 0, Vector2 1 1], [Vector2 0 0, Vector2 1 1, Vector2 2 0]))"
  by (simp add: computeConvexHull2D_def findStart.simps Let_def compareAngle_keys
      popLoop.simps crossProduct_def)

text \<open>On the engine without rounding the angles are \<open>0\<close> and \<open>\<pi> / 4\<close>.\<close>

theorem computeConvexHull2D_swaps_in_place_witness:
  "angleKey exactEngine (Vector2 0 0) (Vector2 2 0) <
     angleKey exactEngine (Vector2 0 0) (Vector2 1 1) \<and>
   computeConvexHull2D exactEngine [Vector2 1 1, Vector2 0 0, Vector2 2 0] =
     ([Vector2 0 0, Vector2 2 0, Vector2 1 1], [Vector2 0 0, Vector2 1 1, Vector2 2 0]) \<and>
   snd (computeConvexHull2D exactEngine [Vector2 1 1, Vector2 0 0, Vector2 2 0]) \<noteq>
     [Vector2 1 1, Vector2 0 0, Vector2 2 0]"
proof -
  have k: "angleKey exactEngine (Vector2 0 0) (Vector2 2 0) <
      angleKey exactEngine (Vector2 0 0) (Vector2 1 1)"
    by (simp add: exactEngine_keys exactAtan2_values)
  from k computeConvexHull2D_swaps_in_place [of exactEngine] show ?thesis by blast
qed

lemma squareModel_points:
  "collectProjectedPoints squareModel = [Vector2 0 0, Vector2 10 0, Vector2 10 10, Vector2 0 10]"
  by (simp add: collectProjectedPoints_def squareModel_def projectMesh_def)

lemma baseFill_volume_general:
  assumes "3 \<le> length (fst (computeConvexHull2D E (collectProjectedPoints model)))"
    and "0.001 < max 0 (v3y (bb_min bbox))"
  shows "volume (createBaseFill E model bbox) =
     \<bar>calculateShapeArea (fst (computeConvexHull2D E (collectProjectedPoints model)))\<bar> *
       max 0 (v3y (bb_min bbox))"
proof -
  have "\<not> length (collectProjectedPoints model) < 3"
    using assms(1) by (auto simp: computeConvexHull2D_def)
  with assms show ?thesis
    by (auto simp: createBaseFill_def Let_def max_def split: if_splits)
qed

lemma squareModel_volume:
  assumes "angleKey E (Vector2 0 0) (Vector2 10 0) < angleKey E (Vector2 0 0) (Vector2 10 10)"
    and "angleKey E (Vector2 0 0) (Vector2 10 10) < angleKey E (Vector2 0 0) (Vector2 0 10)"
  shows "volume (createBaseFill E squareModel squareBox) = 200"
proof -
  have "calculateShapeArea [Vector2 0 0, Vector2 10 0, Vector2 10 10, Vector2 0 10] = 100"
    by (simp add: calculateShapeArea_def areaLoop.simps)
  then show ?thesis
    by (simp add: createBaseFill_def Let_def squareModel_points square_hull4 [OF assms]
        squareBox_def)
qed

text \<open>
  Claim C2. When the hull of the projected points has at least three vertices and
  the fill height \<open>max(0, bbox.min.y)\<close> exceeds the tolerance 0.001, the volume
  that \<open>createBaseFill\<close> reports is the absolute shoelace area of the hull times
  the fill height, on every engine; so a hull of area 100 with fill height 2 gives
  200. The raised square is such a model, on every engine that gives the
  directions of its corners \<open>(10, 0)\<close>, \<open>(10, 10)\<close>, \<open>(0, 10)\<close> increasing angles.
\<close>

theorem baseFill_volume:
  "(3 \<le> length (fst (computeConvexHull2D E (collectProjectedPoints model))) \<and>
    0.001 < max 0 (v3y (bb_min bbox)) \<longrightarrow>
      volume (createBaseFill E model bbox) =
        \<bar>shoelace (fst (computeConvexHull2D E (collectProjectedPoints model)))\<bar> *
          max 0 (v3y (bb_min bbox))) \<and>
   (3 \<le> length (fst (computeConvexHull2D E (collectProjectedPoints model))) \<and>
    \<bar>shoelace (fst (computeConvexHull2D E (collectProjectedPoints model)))\<bar> = 100 \<and>
    max 0 (v3y (bb_min bbox)) = 2 \<longrightarrow>
      volume (createBaseFill E model bbox) = 200) \<and>
   (angleKey E (Vector2 0 0) (Vector2 10 0) < angleKey E (Vector2 0 0) (Vector2 10 10) \<and>
    angleKey E (Vector2 0 0) (Vector2 10 10) < angleKey E (Vector2 0 0) (Vector2 0 10) \<longrightarrow>
      \<bar>shoelace (fst (computeConvexHull2D E (collectProjectedPoints squareModel)))\<bar> = 100 \<and>
      max 0 (v3y (bb_min squareBox)) = 2 \<and>
      volume (createBaseFill E squareModel squareBox) = 200)"
proof -
  have g: "3 \<le> length (fst (computeConvexHull2D E (collectProjectedPoints model))) \<and>
    0.001 < max 0 (v3y (bb_min bbox)) \<longrightarrow>
      volume (createBaseFill E model bbox) =
        \<bar>shoelace (fst (computeConvexHull2D E (collectProjectedPoints model)))\<bar> *
          max 0 (v3y (bb_min bbox))"
    using baseFill_volume_general [of E model bbox]
    by (simp only: calculateShapeArea_shoelace) blast
  have s: "\<bar>shoelace (fst (computeConvexHull2D E (collectProjectedPoints squareModel)))\<bar> = 100 \<and>
      max 0 (v3y (bb_min squareBox)) = 2 \<and>
      volume (createBaseFill E squareModel squareBox) = 200"
    if h: "angleKey E (Vector2 0 0) (Vector2 10 0) < angleKey E (Vector2 0 0) (Vector2 10 10)"
      "angleKey E (Vector2 0 0) (Vector2 10 10) < angleKey E (Vector2 0 0) (Vector2 0 10)"
  proof -
    have "\<bar>shoelace (fst (computeConvexHull2D E (collectProjectedPoints squareModel)))\<bar> = 100"
      using square_area
      by (simp add: squareModel_points square_hull4 [OF h] calculateShapeArea_shoelace)
    moreover have "max 0 (v3y (bb_min squareBox)) = 2"
      by (simp add: squareBox_def)
    ultimately show ?thesis
      using squareModel_volume [OF h] by blast
  qed
  have c: "3 \<le> length (fst (computeConvexHull2D E (collectProjectedPoints model))) \<and>
    \<bar>shoelace (fst (computeConvexHull2D E (collectProjectedPoints model)))\<bar> = 100 \<and>
    max 0 (v3y (bb_min bbox)) = 2 \<longrightarrow>
      volume (createBaseFill E model bbox) = 200"
  proof (intro impI, elim conjE)
    assume l: "3 \<le> length (fst (computeConvexHull2D E (collectProjectedPoints model)))"
      and a: "\<bar>shoelace (fst (computeConvexHull2D E (collectProjectedPoints model)))\<bar> = 100"
      and f: "max 0 (v3y (bb_min bbox)) = 2"
    from f have "0.001 < max 0 (v3y (bb_min bbox))" by simp
    with g l have "volume (createBaseFill E model bbox) =
        \<bar>shoelace (fst (computeConvexHull2D E (collectProjectedPoints model)))\<bar> *
          max 0 (v3y (bb_min bbox))"
      by blast
    then show "volume (createBaseFill E model bbox) = 200"
      by (simp only: a f)
  qed
  from g c s show ?thesis by blast
qed

text \<open>
  On the engine without rounding the angles of the three corners are \<open>0\<close>,
  \<open>\<pi> / 4\<close> and \<open>\<pi> / 2\<close>; the raised square meets both conditions of the general
  statement.
\<close>

theorem baseFill_volume_witness:
  "3 \<le> length (fst (computeConvexHull2D exactEngine (collectProjectedPoints squareModel))) \<and>
   0.001 < max 0 (v3y (bb_min squareBox)) \<and>
   angleKey exactEngine (Vector2 0 0) (Vector2 10 0) <
     angleKey exactEngine (Vector2 0 0) (Vector2 10 10) \<and>
   angleKey exactEngine (Vector2 0 0) (Vector2 10 10) <
     angleKey exactEngine (Vector2 0 0) (Vector2 0 10) \<and>
   volume (createBaseFill exactEngine squareModel squareBox) =
     \<bar>shoelace (fst (computeConvexHull2D exactEngine (collectProjectedPoints squareModel)))\<bar> *
       max 0 (v3y (bb_min squareBox)) \<and>
   \<bar>shoelace (fst (computeConvexHull2D exactEngine (collectProjectedPoints squareModel)))\<bar> = 100 \<and>
   max 0 (v3y (bb_min squareBox)) = 2 \<and>
   volume (createBaseFill exactEngine squareModel squareBox) = 200"
proof -
  have h: "3 \<le> length (fst (computeConvexHull2D exactEngine (collectProjectedPoints squareModel)))"
    by (simp add: squareModel_points square_hull4 [OF exactEngine_square])
  have t: "0.001 < max 0 (v3y (bb_min squareBox))"
    by (simp add: squareBox_def)
  note k = exactEngine_square
  from h t k baseFill_volume [of exactEngine squareModel squareBox] show ?thesis by blast
qed


section \<open>Convex hull: orientation lemmas\<close>

lemma cross_rot: "crossProduct a b c = crossProduct b c a"
  unfolding crossProduct_def by algebra

lemma cross_flip: "crossProduct a c b = - crossProduct a b c"
  unfolding crossProduct_def by algebra

lemma cross_self [simp]:
  "crossProduct a a b = 0" "crossProduct a b a = 0" "crossProduct a b b = 0"
  unfolding crossProduct_def by algebra+

lemma cross_four_points:
  "crossProduct p z t * crossProduct t s q =
     crossProduct p t s * crossProduct z t q + crossProduct z t s * crossProduct p q t"
  unfolding crossProduct_def by algebra

lemma cross_chain_step:
  "crossProduct p b c * crossProduct a b s =
     crossProduct b c s * crossProduct p a b + crossProduct a b c * crossProduct p b s"
  unfolding crossProduct_def by algebra

lemma cross_barycentric:
  "crossProduct p t b * crossProduct t s q =
     crossProduct t b q * crossProduct p t s - crossProduct p t q * crossProduct t b s"
  unfolding crossProduct_def by algebra

lemma collinear_scale:
  assumes "crossProduct p b s = 0"
  shows "dotFrom p b b * crossProduct p s q = dotFrom p b s * crossProduct p b q"
  using assms unfolding crossProduct_def dotFrom_def by algebra

lemma collinear_turn:
  assumes "crossProduct p t s = 0"
  shows "dotFrom p t t * crossProduct z t s = (dotFrom p t t - dotFrom p t s) * crossProduct p z t"
  using assms unfolding crossProduct_def dotFrom_def by algebra

lemma collinear_inner:
  assumes "crossProduct p q t = 0"
  shows "dotFrom p t t * crossProduct t s q = (dotFrom p t t - dotFrom p t q) * crossProduct p t s"
  using assms unfolding crossProduct_def dotFrom_def by algebra


lemma dotFrom_commute: "dotFrom p a b = dotFrom p b a"
  by (simp add: dotFrom_def mult.commute)

lemma dotFrom_self_nonneg: "0 \<le> dotFrom p a a"
  by (simp add: dotFrom_def)

lemma dotFrom_self_zero: "dotFrom p a a = 0 \<longleftrightarrow> a = p"
proof
  assume "dotFrom p a a = 0"
  then have "(v2x a - v2x p)\<^sup>2 + (v2y a - v2y p)\<^sup>2 = 0"
    by (simp add: dotFrom_def power2_eq_square)
  then have "v2x a - v2x p = 0 \<and> v2y a - v2y p = 0"
    by (simp add: sum_power2_eq_zero_iff)
  then show "a = p" by (simp add: vector2.expand)
next
  assume "a = p"
  then show "dotFrom p a a = 0" by (simp add: dotFrom_def)
qed

lemma dotFrom_pivot [simp]: "dotFrom p p a = 0" "dotFrom p a p = 0"
  by (simp_all add: dotFrom_def)

lemma angularBefore_cross: "angularBefore p q s \<Longrightarrow> 0 \<le> crossProduct p q s"
  by (auto simp: angularBefore_def)

lemma angularBefore_pivot_right: "angularBefore p q p \<Longrightarrow> q = p"
  using dotFrom_self_nonneg [of p q] by (simp add: angularBefore_def flip: dotFrom_self_zero)

lemma angularBefore_pivot_left [simp]: "angularBefore p p s"
  by (simp add: angularBefore_def)

lemma angularBefore_refl [simp]: "angularBefore p s s"
  by (simp add: angularBefore_def)

lemma nonneg_by_factor:
  fixes d x :: real
  shows "0 < d \<Longrightarrow> 0 \<le> d * x \<Longrightarrow> 0 \<le> x"
  by (simp add: zero_le_mult_iff)

lemma turn_after_pop:
  assumes "0 < crossProduct p t b" and "crossProduct t b s \<le> 0" and "0 \<le> crossProduct t b q"
    and "0 \<le> crossProduct p t s" and "0 \<le> crossProduct p t q"
  shows "0 \<le> crossProduct t s q"
proof -
  have "0 \<le> crossProduct t b q * crossProduct p t s"
    using assms(3,4) by (intro mult_nonneg_nonneg)
  moreover have "crossProduct p t q * crossProduct t b s \<le> 0"
    using assms(2,5) by (intro mult_nonneg_nonpos)
  moreover have "crossProduct p t b * crossProduct t s q =
      crossProduct t b q * crossProduct p t s - crossProduct p t q * crossProduct t b s"
    by (rule cross_barycentric)
  ultimately have "0 \<le> crossProduct p t b * crossProduct t s q"
    by linarith
  with assms(1) show ?thesis by (rule nonneg_by_factor)
qed

lemma turn_below_top:
  assumes "0 < crossProduct p z t" and "0 \<le> crossProduct p t s" and "0 \<le> crossProduct z t q"
    and "0 \<le> crossProduct z t s" and "0 \<le> crossProduct p q t"
  shows "0 \<le> crossProduct t s q"
proof -
  have "0 \<le> crossProduct p t s * crossProduct z t q"
    using assms(2,3) by (intro mult_nonneg_nonneg)
  moreover have "0 \<le> crossProduct z t s * crossProduct p q t"
    using assms(4,5) by (intro mult_nonneg_nonneg)
  moreover have "crossProduct p z t * crossProduct t s q =
      crossProduct p t s * crossProduct z t q + crossProduct z t s * crossProduct p q t"
    by (rule cross_four_points)
  ultimately have "0 \<le> crossProduct p z t * crossProduct t s q"
    by linarith
  with assms(1) show ?thesis by (rule nonneg_by_factor)
qed

lemma turn_collinear_inner:
  assumes "crossProduct p q t = 0" and "dotFrom p q q \<le> dotFrom p q t"
    and "0 \<le> crossProduct p t s"
  shows "0 \<le> crossProduct t s q"
proof (cases "t = p")
  case True
  with assms(2) have "dotFrom p q q \<le> 0" by simp
  with dotFrom_self_nonneg [of p q] have "q = p" by (simp flip: dotFrom_self_zero)
  with True show ?thesis by simp
next
  case False
  then have pos: "0 < dotFrom p t t"
    using dotFrom_self_nonneg [of p t] dotFrom_self_zero [of p t] by linarith
  have "dotFrom p t t - dotFrom p t q =
        ((v2x t - v2x q)\<^sup>2 + (v2y t - v2y q)\<^sup>2) + (dotFrom p q t - dotFrom p q q)"
    unfolding dotFrom_def by algebra
  moreover have "0 \<le> (v2x t - v2x q)\<^sup>2 + (v2y t - v2y q)\<^sup>2" by simp
  ultimately have "0 \<le> dotFrom p t t - dotFrom p t q"
    using assms(2) by linarith
  then have "0 \<le> (dotFrom p t t - dotFrom p t q) * crossProduct p t s"
    using assms(3) by (intro mult_nonneg_nonneg)
  moreover have "dotFrom p t t * crossProduct t s q =
      (dotFrom p t t - dotFrom p t q) * crossProduct p t s"
    using assms(1) by (rule collinear_inner)
  ultimately have "0 \<le> dotFrom p t t * crossProduct t s q" by linarith
  with pos show ?thesis by (rule nonneg_by_factor)
qed

lemma turn_collinear_base:
  assumes "crossProduct p b s = 0" and "dotFrom p b b \<le> dotFrom p b s" and "b \<noteq> p"
    and "0 \<le> crossProduct p b q"
  shows "0 \<le> crossProduct p s q"
proof -
  have pos: "0 < dotFrom p b b"
    using assms(3) dotFrom_self_nonneg [of p b] dotFrom_self_zero [of p b] by linarith
  with assms(2) have "0 \<le> dotFrom p b s" by simp
  then have "0 \<le> dotFrom p b s * crossProduct p b q"
    using assms(4) by (intro mult_nonneg_nonneg)
  moreover have "dotFrom p b b * crossProduct p s q = dotFrom p b s * crossProduct p b q"
    using assms(1) by (rule collinear_scale)
  ultimately have "0 \<le> dotFrom p b b * crossProduct p s q" by linarith
  with pos show ?thesis by (rule nonneg_by_factor)
qed

lemma strict_angle_kept:
  assumes "angularBefore p t s" and "0 < crossProduct z t s" and "0 < crossProduct p z t"
  shows "0 < crossProduct p t s"
proof (rule ccontr)
  assume "\<not> 0 < crossProduct p t s"
  with assms(1) have c: "crossProduct p t s = 0" and d: "dotFrom p t t \<le> dotFrom p t s"
    by (auto simp: angularBefore_def)
  have "t \<noteq> p" using assms(3) by auto
  then have pos: "0 < dotFrom p t t"
    using dotFrom_self_nonneg [of p t] dotFrom_self_zero [of p t] by linarith
  have "(dotFrom p t t - dotFrom p t s) * crossProduct p z t \<le> 0"
    using d assms(3) by (intro mult_nonpos_nonneg) simp_all
  moreover have "dotFrom p t t * crossProduct z t s =
      (dotFrom p t t - dotFrom p t s) * crossProduct p z t"
    using c by (rule collinear_turn)
  ultimately have "dotFrom p t t * crossProduct z t s \<le> 0" by linarith
  moreover have "0 < dotFrom p t t * crossProduct z t s"
    using pos assms(2) by (intro mult_pos_pos)
  ultimately show False by linarith
qed

lemma turn_down_chain:
  assumes "0 < crossProduct p b c" and "0 \<le> crossProduct b c s" and "0 \<le> crossProduct p a b"
    and "0 < crossProduct a b c" and "0 \<le> crossProduct p b s"
  shows "0 \<le> crossProduct a b s"
proof -
  have "0 \<le> crossProduct b c s * crossProduct p a b"
    using assms(2,3) by (intro mult_nonneg_nonneg)
  moreover have "0 \<le> crossProduct a b c * crossProduct p b s"
    using assms(4,5) by (intro mult_nonneg_nonneg) simp_all
  moreover have "crossProduct p b c * crossProduct a b s =
      crossProduct b c s * crossProduct p a b + crossProduct a b c * crossProduct p b s"
    by (rule cross_chain_step)
  ultimately have "0 \<le> crossProduct p b c * crossProduct a b s" by linarith
  with assms(1) show ?thesis by (rule nonneg_by_factor)
qed


section \<open>Convex hull: the comparator\<close>

lemma sqrt_sum_squares_pos:
  assumes "0 < x"
  shows "sqrt (x\<^sup>2 + y\<^sup>2) = x * sqrt (1 + (y / x)\<^sup>2)"
proof -
  have "x\<^sup>2 + y\<^sup>2 = x\<^sup>2 * (1 + (y / x)\<^sup>2)"
    using assms by (simp add: field_simps power2_eq_square)
  then have "sqrt (x\<^sup>2 + y\<^sup>2) = sqrt (x\<^sup>2) * sqrt (1 + (y / x)\<^sup>2)"
    by (simp add: real_sqrt_mult)
  with assms show ?thesis by simp
qed

lemma sqrt_sum_squares_neg:
  assumes "x < 0"
  shows "sqrt (x\<^sup>2 + y\<^sup>2) = - x * sqrt (1 + (y / x)\<^sup>2)"
proof -
  have "x\<^sup>2 + y\<^sup>2 = x\<^sup>2 * (1 + (y / x)\<^sup>2)"
    using assms by (simp add: field_simps power2_eq_square)
  then have "sqrt (x\<^sup>2 + y\<^sup>2) = sqrt (x\<^sup>2) * sqrt (1 + (y / x)\<^sup>2)"
    by (simp add: real_sqrt_mult)
  with assms show ?thesis by simp
qed

lemma sqrt_one_plus_pos: "0 < sqrt (1 + t\<^sup>2)" for t :: real
  by (simp add: add_pos_nonneg)

lemma exactAtan2_polar:
  "sqrt (x\<^sup>2 + y\<^sup>2) * cos (exactAtan2 y x) = x \<and> sqrt (x\<^sup>2 + y\<^sup>2) * sin (exactAtan2 y x) = y"
proof -
  consider "0 < x" | "x < 0" | "x = 0" by linarith
  then show ?thesis
  proof cases
    case 1
    have nz: "sqrt (1 + (y / x)\<^sup>2) \<noteq> 0"
      using sqrt_one_plus_pos [of "y / x"] by simp
    from 1 nz show ?thesis
      by (simp add: exactAtan2_def sqrt_sum_squares_pos cos_arctan sin_arctan)
  next
    case 2
    have nz: "sqrt (1 + (y / x)\<^sup>2) \<noteq> 0"
      using sqrt_one_plus_pos [of "y / x"] by simp
    from 2 nz show ?thesis
      by (simp add: exactAtan2_def sqrt_sum_squares_neg cos_arctan sin_arctan)
  next
    case 3
    then show ?thesis
      by (simp add: exactAtan2_def)
  qed
qed


lemma exactAtan2_upper_range:
  assumes "0 < y \<or> (y = 0 \<and> 0 \<le> x)"
  shows "0 \<le> exactAtan2 y x \<and> exactAtan2 y x < pi"
proof -
  consider "0 < x" | "x < 0" | "x = 0" by linarith
  then show ?thesis
  proof cases
    case 1
    with assms have "0 \<le> y / x" by auto
    then have "0 \<le> arctan (y / x)" by (simp add: zero_le_arctan_iff)
    moreover have "arctan (y / x) < pi / 2" by (rule arctan_ubound)
    moreover have "exactAtan2 y x = arctan (y / x)" using 1 by (simp add: exactAtan2_def)
    ultimately show ?thesis using pi_gt_zero by linarith
  next
    case 2
    with assms have y: "0 < y" by auto
    with 2 have "y / x < 0" by (simp add: divide_pos_neg)
    then have "arctan (y / x) < 0" by (simp add: arctan_less_zero_iff)
    moreover have "- (pi / 2) < arctan (y / x)" by (rule arctan_lbound)
    moreover have "exactAtan2 y x = arctan (y / x) + pi" using 2 y by (simp add: exactAtan2_def)
    ultimately show ?thesis using pi_gt_zero by linarith
  next
    case 3
    with assms pi_gt_zero show ?thesis by (auto simp: exactAtan2_def)
  qed
qed

lemma exactAtan2_zero_iff:
  assumes "0 < y \<or> (y = 0 \<and> 0 \<le> x)" and "x \<noteq> 0 \<or> y \<noteq> 0"
  shows "sqrt (x\<^sup>2 + y\<^sup>2) > 0"
  using assms by (auto simp: sum_power2_gt_zero_iff)

lemma cross_by_angles:
  fixes x1 y1 x2 y2 :: real
  defines "r1 \<equiv> sqrt (x1\<^sup>2 + y1\<^sup>2)" and "r2 \<equiv> sqrt (x2\<^sup>2 + y2\<^sup>2)"
  shows "x1 * y2 - y1 * x2 = r1 * r2 * sin (exactAtan2 y2 x2 - exactAtan2 y1 x1)"
    and "x1 * x2 + y1 * y2 = r1 * r2 * cos (exactAtan2 y2 x2 - exactAtan2 y1 x1)"
proof -
  have a: "r1 * cos (exactAtan2 y1 x1) = x1" "r1 * sin (exactAtan2 y1 x1) = y1"
    using exactAtan2_polar [of x1 y1] by (simp_all add: r1_def)
  have b: "r2 * cos (exactAtan2 y2 x2) = x2" "r2 * sin (exactAtan2 y2 x2) = y2"
    using exactAtan2_polar [of x2 y2] by (simp_all add: r2_def)
  have "x1 * y2 - y1 * x2 =
        (r1 * cos (exactAtan2 y1 x1)) * (r2 * sin (exactAtan2 y2 x2)) -
        (r1 * sin (exactAtan2 y1 x1)) * (r2 * cos (exactAtan2 y2 x2))"
    by (simp only: a b)
  also have "\<dots> = r1 * r2 * sin (exactAtan2 y2 x2 - exactAtan2 y1 x1)"
    by (simp add: sin_diff algebra_simps)
  finally show "x1 * y2 - y1 * x2 = r1 * r2 * sin (exactAtan2 y2 x2 - exactAtan2 y1 x1)" .
  have "x1 * x2 + y1 * y2 =
        (r1 * cos (exactAtan2 y1 x1)) * (r2 * cos (exactAtan2 y2 x2)) +
        (r1 * sin (exactAtan2 y1 x1)) * (r2 * sin (exactAtan2 y2 x2))"
    by (simp only: a b)
  also have "\<dots> = r1 * r2 * cos (exactAtan2 y2 x2 - exactAtan2 y1 x1)"
    by (simp add: cos_diff algebra_simps)
  finally show "x1 * x2 + y1 * y2 = r1 * r2 * cos (exactAtan2 y2 x2 - exactAtan2 y1 x1)" .
qed


text \<open>
  On every engine the comparator is the lexicographic order of the two keys, a
  total preorder: the sort is determined by it.
\<close>

lemma compareAngle_le:
  "compareAngle E p a b \<le> 0 \<longleftrightarrow>
     angleKey E p a < angleKey E p b \<or>
     (angleKey E p a = angleKey E p b \<and> distKey E p a \<le> distKey E p b)"
  by (auto simp: compareAngle_keys)

lemma compareAngle_total: "compareAngle E p a b \<le> 0 \<or> compareAngle E p b a \<le> 0"
  unfolding compareAngle_le by linarith

lemma compareAngle_trans:
  "compareAngle E p a b \<le> 0 \<Longrightarrow> compareAngle E p b c \<le> 0 \<Longrightarrow> compareAngle E p a c \<le> 0"
  unfolding compareAngle_le by linarith

text \<open>Without rounding the keys are the polar coordinates of the point.\<close>

lemma compareAngle_exact_le:
  "compareAngle exactEngine p a b \<le> 0 \<longleftrightarrow>
     polarAngle p a < polarAngle p b \<or>
     (polarAngle p a = polarAngle p b \<and> sqDist p a \<le> sqDist p b)"
  by (simp add: compareAngle_le exactEngine_keys polarAngle_def sqDist_def)

lemma polar_coordinates:
  "v2x a - v2x p = sqrt (sqDist p a) * cos (polarAngle p a)"
  "v2y a - v2y p = sqrt (sqDist p a) * sin (polarAngle p a)"
  using exactAtan2_polar [of "v2x a - v2x p" "v2y a - v2y p"]
  by (simp_all add: polarAngle_def sqDist_def)

lemma compareAngle_antisym:
  assumes "compareAngle exactEngine p a b \<le> 0" and "compareAngle exactEngine p b a \<le> 0"
  shows "a = b"
proof -
  from assms have t: "polarAngle p a = polarAngle p b" and d: "sqDist p a = sqDist p b"
    unfolding compareAngle_exact_le by linarith+
  have "v2x a - v2x p = sqrt (sqDist p a) * cos (polarAngle p a)"
    by (rule polar_coordinates)
  also have "\<dots> = sqrt (sqDist p b) * cos (polarAngle p b)"
    by (simp only: t d)
  also have "\<dots> = v2x b - v2x p"
    by (rule polar_coordinates [symmetric])
  finally have x: "v2x a = v2x b" by simp
  have "v2y a - v2y p = sqrt (sqDist p a) * sin (polarAngle p a)"
    by (rule polar_coordinates)
  also have "\<dots> = sqrt (sqDist p b) * sin (polarAngle p b)"
    by (simp only: t d)
  also have "\<dots> = v2y b - v2y p"
    by (rule polar_coordinates [symmetric])
  finally have y: "v2y a = v2y b" by simp
  from x y show ?thesis by (simp add: vector2.expand)
qed

lemma compareAngle_angularBefore:
  assumes a: "\<not> lexLess a p" and b: "\<not> lexLess b p"
    and c: "compareAngle exactEngine p a b \<le> 0"
  shows "angularBefore p a b"
proof -
  define x1 y1 x2 y2 where "x1 = v2x a - v2x p" and "y1 = v2y a - v2y p"
    and "x2 = v2x b - v2x p" and "y2 = v2y b - v2y p"
  define r1 r2 where "r1 = sqrt (x1\<^sup>2 + y1\<^sup>2)" and "r2 = sqrt (x2\<^sup>2 + y2\<^sup>2)"
  define t1 t2 where "t1 = exactAtan2 y1 x1" and "t2 = exactAtan2 y2 x2"
  have u1: "0 < y1 \<or> (y1 = 0 \<and> 0 \<le> x1)"
    using a by (auto simp: lexLess_def x1_def y1_def)
  have u2: "0 < y2 \<or> (y2 = 0 \<and> 0 \<le> x2)"
    using b by (auto simp: lexLess_def x2_def y2_def)
  have rg1: "0 \<le> t1" "t1 < pi" using exactAtan2_upper_range [OF u1] by (simp_all add: t1_def)
  have rg2: "0 \<le> t2" "t2 < pi" using exactAtan2_upper_range [OF u2] by (simp_all add: t2_def)
  have r0: "0 \<le> r1" "0 \<le> r2" by (simp_all add: r1_def r2_def)
  have cr: "crossProduct p a b = r1 * r2 * sin (t2 - t1)"
    unfolding crossProduct_def r1_def r2_def t1_def t2_def x1_def y1_def x2_def y2_def
    by (rule cross_by_angles(1))
  have dt: "x1 * x2 + y1 * y2 = r1 * r2 * cos (t2 - t1)"
    unfolding r1_def r2_def t1_def t2_def
    by (rule cross_by_angles(2))
  have sq: "x1 * x1 + y1 * y1 = r1 * r1"
    by (simp add: r1_def power2_eq_square [symmetric])
  have goal_dot: "dotFrom p a b = x1 * x2 + y1 * y2" "dotFrom p a a = x1 * x1 + y1 * y1"
    by (simp_all add: dotFrom_def x1_def y1_def x2_def y2_def)
  from c have "t1 < t2 \<or> (t1 = t2 \<and> r1\<^sup>2 \<le> r2\<^sup>2)"
    unfolding compareAngle_exact_le
    by (simp add: polarAngle_def sqDist_def t1_def t2_def x1_def y1_def x2_def y2_def r1_def r2_def)
  then show ?thesis
  proof
    assume lt: "t1 < t2"
    then have "0 < sin (t2 - t1)"
      using rg1 rg2 by (intro sin_gt_zero) linarith+
    with r0 have nn: "0 \<le> crossProduct p a b"
      by (simp add: cr)
    show ?thesis
    proof (cases "crossProduct p a b = 0")
      case False
      with nn show ?thesis by (simp add: angularBefore_def)
    next
      case True
      have "r2 \<noteq> 0"
      proof
        assume "r2 = 0"
        then have "x2 = 0 \<and> y2 = 0"
          by (simp add: r2_def sum_power2_eq_zero_iff)
        then have "t2 = 0" by (simp add: t2_def exactAtan2_def)
        with lt rg1 show False by simp
      qed
      with True \<open>0 < sin (t2 - t1)\<close> have "r1 = 0" by (simp add: cr)
      then have "x1 = 0 \<and> y1 = 0"
        by (simp add: r1_def sum_power2_eq_zero_iff)
      with True show ?thesis
        by (simp add: angularBefore_def goal_dot)
    qed
  next
    assume eq: "t1 = t2 \<and> r1\<^sup>2 \<le> r2\<^sup>2"
    then have le: "r1 \<le> r2"
      using r0 by (simp add: power2_le_iff_abs_le abs_le_iff)
    have "crossProduct p a b = 0" using eq by (simp add: cr)
    moreover have "(x1 * x2 + y1 * y2) - (x1 * x1 + y1 * y1) = r1 * (r2 - r1)"
      using eq by (simp add: dt sq algebra_simps)
    moreover have "0 \<le> r1 * (r2 - r1)"
      using r0 le by simp
    ultimately have "crossProduct p a b = 0 \<and> dotFrom p a a \<le> dotFrom p a b"
      unfolding goal_dot by linarith
    then show ?thesis
      by (simp add: angularBefore_def)
  qed
qed


lemma mset_insertBy: "mset (insertBy c x ys) = add_mset x (mset ys)"
  by (induction ys) auto

lemma mset_sortBy: "mset (sortBy c xs) = mset xs"
  by (induction xs) (auto simp: mset_insertBy)

lemma set_insertBy: "set (insertBy c x ys) = insert x (set ys)"
  by (induction ys) auto

lemma set_sortBy: "set (sortBy c xs) = set xs"
  by (induction xs) (auto simp: set_insertBy)

lemma sorted_insertBy:
  assumes total: "\<And>a b. c a b \<le> 0 \<or> c b a \<le> 0"
    and trans: "\<And>a b d. c a b \<le> 0 \<Longrightarrow> c b d \<le> 0 \<Longrightarrow> c a d \<le> 0"
  shows "sorted_wrt (\<lambda>a b. c a b \<le> 0) ys \<Longrightarrow> sorted_wrt (\<lambda>a b. c a b \<le> 0) (insertBy c x ys)"
proof (induction ys)
  case Nil
  then show ?case by simp
next
  case (Cons y ys)
  show ?case
  proof (cases "c x y \<le> 0")
    case True
    with Cons.prems trans show ?thesis by auto
  next
    case False
    with total have "c y x \<le> 0" by blast
    with False Cons show ?thesis by (auto simp: set_insertBy)
  qed
qed

lemma sorted_sortBy:
  assumes "\<And>a b. c a b \<le> 0 \<or> c b a \<le> 0"
    and "\<And>a b d. c a b \<le> 0 \<Longrightarrow> c b d \<le> 0 \<Longrightarrow> c a d \<le> 0"
  shows "sorted_wrt (\<lambda>a b. c a b \<le> 0) (sortBy c xs)"
  by (induction xs) (simp_all add: sorted_insertBy [OF assms])

lemma sorted_wrt_unique:
  assumes anti: "\<And>a b. a \<in> S \<Longrightarrow> b \<in> S \<Longrightarrow> R a b \<Longrightarrow> R b a \<Longrightarrow> a = b"
  shows "sorted_wrt R xs \<Longrightarrow> sorted_wrt R ys \<Longrightarrow> mset xs = mset ys \<Longrightarrow> set xs \<subseteq> S \<Longrightarrow> xs = ys"
proof (induction xs arbitrary: ys)
  case Nil
  then show ?case by simp
next
  case (Cons x xs)
  from Cons.prems(3) obtain y ys' where ys: "ys = y # ys'"
    by (cases ys) auto
  have sets: "set ys = set (x # xs)"
    using Cons.prems(3) by (metis set_mset_mset)
  have xy: "x = y"
  proof (rule ccontr)
    assume ne: "x \<noteq> y"
    have "x \<in> set ys" using sets by simp
    with ne ys have "x \<in> set ys'" by auto
    with Cons.prems(2) ys have 1: "R y x" by auto
    have "y \<in> set (x # xs)" using sets ys by auto
    with ne have yx: "y \<in> set xs" by auto
    with Cons.prems(1) have 2: "R x y" by auto
    have "x \<in> S" "y \<in> S" using Cons.prems(4) yx by auto
    from anti [OF this 2 1] ne show False by simp
  qed
  with Cons.prems ys have "xs = ys'"
    by (intro Cons.IH) auto
  with xy ys show ?case by simp
qed

text \<open>
  When the comparator separates the points, the sorted sequence depends only on
  the points and not on their order.
\<close>

lemma sortBy_compareAngle_permutation:
  assumes "mset xs = mset ys" and sep: "separating E p (set xs)"
  shows "sortBy (compareAngle E p) xs = sortBy (compareAngle E p) ys"
proof (rule sorted_wrt_unique [where S = "set xs"])
  show "sorted_wrt (\<lambda>a b. compareAngle E p a b \<le> 0) (sortBy (compareAngle E p) xs)"
    by (rule sorted_sortBy) (rule compareAngle_total, rule compareAngle_trans)
  show "sorted_wrt (\<lambda>a b. compareAngle E p a b \<le> 0) (sortBy (compareAngle E p) ys)"
    by (rule sorted_sortBy) (rule compareAngle_total, rule compareAngle_trans)
  show "mset (sortBy (compareAngle E p) xs) = mset (sortBy (compareAngle E p) ys)"
    using assms by (simp add: mset_sortBy)
  show "set (sortBy (compareAngle E p) xs) \<subseteq> set xs"
    by (simp add: set_sortBy)
  show "\<And>a b. a \<in> set xs \<Longrightarrow> b \<in> set xs \<Longrightarrow>
      compareAngle E p a b \<le> 0 \<Longrightarrow> compareAngle E p b a \<le> 0 \<Longrightarrow> a = b"
    using sep by (simp add: separating_def)
qed

text \<open>The engine without rounding separates all points and is faithful to the angular order.\<close>

lemma exactEngine_separating: "separating exactEngine p S"
  unfolding separating_def using compareAngle_antisym by blast

lemma exactEngine_angleFaithful:
  "\<forall>a \<in> S. \<not> lexLess a p \<Longrightarrow> angleFaithful exactEngine p S"
  unfolding angleFaithful_def using compareAngle_angularBefore by blast


section \<open>Convex hull: the pivot\<close>

lemma lexLess_irrefl: "\<not> lexLess a a"
  by (simp add: lexLess_def)

lemma lexLess_trans: "lexLess a b \<Longrightarrow> lexLess b c \<Longrightarrow> lexLess a c"
  by (auto simp: lexLess_def)

lemma lexLess_total: "\<not> lexLess a b \<Longrightarrow> \<not> lexLess b a \<Longrightarrow> a = b"
  by (auto simp: lexLess_def vector2.expand)

lemma findStart_step:
  "i < length pts \<Longrightarrow>
     findStart pts i start = findStart pts (i + 1) (if lexLess (pts ! i) (pts ! start) then i else start)"
  by (subst findStart.simps) (simp add: lexLess_def)

lemma findStart_stop: "\<not> i < length pts \<Longrightarrow> findStart pts i start = start"
  by (subst findStart.simps) simp

lemma findStart_lowest:
  assumes "start < length pts" and "\<forall>k<i. \<not> lexLess (pts ! k) (pts ! start)"
  shows "findStart pts i start < length pts \<and>
         (\<forall>k<length pts. \<not> lexLess (pts ! k) (pts ! findStart pts i start))"
  using assms
proof (induction pts i start rule: findStart.induct)
  case (1 pts i start)
  show ?case
  proof (cases "i < length pts")
    case False
    with "1.prems" show ?thesis by (simp add: findStart_stop)
  next
    case True
    define start' where "start' = (if lexLess (pts ! i) (pts ! start) then i else start)"
    have s': "start' < length pts"
      using True "1.prems"(1) by (simp add: start'_def)
    have inv: "\<forall>k<i + 1. \<not> lexLess (pts ! k) (pts ! start')"
    proof (intro allI impI)
      fix k assume k: "k < i + 1"
      show "\<not> lexLess (pts ! k) (pts ! start')"
      proof (cases "lexLess (pts ! i) (pts ! start)")
        case False
        with k "1.prems"(2) show ?thesis
          by (cases "k = i") (simp_all add: start'_def)
      next
        case lt: True
        show ?thesis
        proof (cases "k = i")
          case True
          with lt show ?thesis by (simp add: start'_def lexLess_irrefl)
        next
          case False
          with k have "k < i" by simp
          with "1.prems"(2) have "\<not> lexLess (pts ! k) (pts ! start)" by simp
          with lt lexLess_trans show ?thesis by (auto simp: start'_def)
        qed
      qed
    qed
    have "findStart pts i start = findStart pts (i + 1) start'"
      using True by (simp add: findStart_step start'_def)
    moreover have "findStart pts (i + 1) start' < length pts \<and>
         (\<forall>k<length pts. \<not> lexLess (pts ! k) (pts ! findStart pts (i + 1) start'))"
      using "1.IH" [OF True] s' inv
      by (simp add: start'_def lexLess_def)
    ultimately show ?thesis by simp
  qed
qed

lemma findStart_in_range: "pts \<noteq> [] \<Longrightarrow> findStart pts 1 0 < length pts"
  using findStart_lowest [of 0 pts 1] by (simp add: lexLess_irrefl)

lemma swapped_head:
  assumes "pts \<noteq> []"
  shows "(pts[0 := pts ! findStart pts 1 0])[findStart pts 1 0 := pts ! 0] ! 0 = pivotOf pts"
  using findStart_in_range [OF assms] assms
  by (cases "findStart pts 1 0 = 0") (simp_all add: pivotOf_def)

lemma computeConvexHull2D_large:
  assumes "3 \<le> length pts"
  shows "fst (computeConvexHull2D E pts) =
       buildHull [pivotOf pts] (sortBy (compareAngle E (pivotOf pts)) (restOf pts))"
proof -
  from assms have "pts \<noteq> []" by auto
  from swapped_head [OF this] assms show ?thesis
    by (simp add: computeConvexHull2D_def Let_def restOf_def)
qed

lemma pivotOf_lowest:
  assumes "pts \<noteq> []"
  shows "pivotOf pts \<in> set pts" and "\<forall>q \<in> set pts. \<not> lexLess q (pivotOf pts)"
proof -
  have "findStart pts 1 0 < length pts \<and>
        (\<forall>k<length pts. \<not> lexLess (pts ! k) (pts ! findStart pts 1 0))"
    using assms by (intro findStart_lowest) (simp_all add: lexLess_irrefl)
  then show "pivotOf pts \<in> set pts" and "\<forall>q \<in> set pts. \<not> lexLess q (pivotOf pts)"
    by (auto simp: pivotOf_def in_set_conv_nth)
qed

lemma mset_pivot_rest:
  assumes "pts \<noteq> []"
  shows "add_mset (pivotOf pts) (mset (restOf pts)) = mset pts"
proof -
  define s where "s = findStart pts 1 0"
  define pts' where "pts' = (pts[0 := pts ! s])[s := pts ! 0]"
  have s: "s < length pts"
    using findStart_in_range [OF assms] by (simp add: s_def)
  have 0: "0 < length pts" using assms by simp
  have m: "mset pts' = mset pts"
    unfolding pts'_def using s 0 by (rule mset_swap)
  have h: "pts' ! 0 = pts ! s"
    using swapped_head [OF assms] by (simp add: pts'_def s_def pivotOf_def)
  have "pts' \<noteq> []" using assms by (simp add: pts'_def)
  then have "pts' = pts' ! 0 # drop 1 pts'"
    by (cases pts') simp_all
  then have "mset pts' = add_mset (pts' ! 0) (mset (drop 1 pts'))"
    by (metis mset.simps(2))
  with m h show ?thesis
    by (simp add: pivotOf_def restOf_def s_def pts'_def)
qed

lemma set_pivot_rest:
  assumes "pts \<noteq> []"
  shows "insert (pivotOf pts) (set (restOf pts)) = set pts"
proof -
  have "set_mset (add_mset (pivotOf pts) (mset (restOf pts))) = set_mset (mset pts)"
    by (simp only: mset_pivot_rest [OF assms])
  then show ?thesis by simp
qed

lemma separating_subset: "separating E p S \<Longrightarrow> T \<subseteq> S \<Longrightarrow> separating E p T"
  by (auto simp: separating_def)

lemma pivotOf_permutation:
  assumes "mset xs = mset ys" and "xs \<noteq> []"
  shows "pivotOf xs = pivotOf ys"
proof -
  from assms have ys: "ys \<noteq> []" by auto
  have st: "set xs = set ys" using assms(1) by (rule mset_eq_setD)
  have "\<not> lexLess (pivotOf ys) (pivotOf xs)"
    using pivotOf_lowest [OF assms(2)] pivotOf_lowest(1) [OF ys] st by blast
  moreover have "\<not> lexLess (pivotOf xs) (pivotOf ys)"
    using pivotOf_lowest [OF ys] pivotOf_lowest(1) [OF assms(2)] st by blast
  ultimately show ?thesis using lexLess_total by blast
qed

text \<open>
  With three or more points, on an engine whose comparator separates them, the
  hull depends only on the points and not on their order.
\<close>

lemma hull_permutation_large:
  assumes "mset xs = mset ys" and "3 \<le> length xs"
    and sep: "separating E (pivotOf xs) (set xs)"
  shows "fst (computeConvexHull2D E ys) = fst (computeConvexHull2D E xs)"
proof -
  from assms have ne: "xs \<noteq> []" "ys \<noteq> []" by auto
  have len: "3 \<le> length ys" using assms by (metis size_mset)
  have p: "pivotOf xs = pivotOf ys" using assms(1) ne(1) by (rule pivotOf_permutation)
  have "add_mset (pivotOf xs) (mset (restOf xs)) = add_mset (pivotOf ys) (mset (restOf ys))"
    using mset_pivot_rest [OF ne(1)] mset_pivot_rest [OF ne(2)] assms(1) by simp
  with p have "mset (restOf xs) = mset (restOf ys)" by simp
  moreover have "separating E (pivotOf xs) (set (restOf xs))"
    using sep set_pivot_rest [OF ne(1)] by (intro separating_subset [OF sep]) auto
  ultimately have "sortBy (compareAngle E (pivotOf xs)) (restOf xs) =
             sortBy (compareAngle E (pivotOf xs)) (restOf ys)"
    by (rule sortBy_compareAngle_permutation)
  with p show ?thesis
    by (simp add: computeConvexHull2D_large assms(2) len)
qed

lemma short_permutation:
  assumes "mset xs = mset ys" and "length xs < 3"
  shows "ys = xs \<or> ys = rotate 1 xs"
proof -
  have l: "length ys = length xs" using assms(1) by (metis size_mset)
  consider "xs = []" | a where "xs = [a]" | a b where "xs = [a, b]"
    using assms(2) by (cases xs; cases "tl xs"; cases "tl (tl xs)") auto
  then show ?thesis
  proof cases
    case 1
    with assms show ?thesis by simp
  next
    case 2
    with assms(1) show ?thesis by (cases ys) auto
  next
    case 3
    with l obtain c d where ys: "ys = [c, d]"
      by (cases ys; cases "tl ys"; cases "tl (tl ys)") auto
    with 3 assms(1) have "(c = a \<and> d = b) \<or> (c = b \<and> d = a)"
      by (auto simp: add_eq_conv_ex)
    with 3 ys show ?thesis by auto
  qed
qed

text \<open>
  What the in-place swap leaves of the caller's array: the same points, possibly in
  another order.
\<close>

lemma computeConvexHull2D_keeps_points:
  "mset (snd (computeConvexHull2D E pts)) = mset pts"
proof (cases "length pts < 3")
  case True
  then show ?thesis by (simp add: computeConvexHull2D_def)
next
  case False
  then have ne: "pts \<noteq> []" by auto
  have s: "findStart pts 1 0 < length pts" using ne by (rule findStart_in_range)
  have 0: "0 < length pts" using ne by simp
  have "mset ((pts[0 := pts ! findStart pts 1 0])[findStart pts 1 0 := pts ! 0]) = mset pts"
    using s 0 by (rule mset_swap)
  with False show ?thesis by (simp add: computeConvexHull2D_def Let_def)
qed

section \<open>Convex hull: order invariance\<close>

lemma cyclicRotationI: "k \<le> length xs \<Longrightarrow> ys = rotate k xs \<Longrightarrow> cyclicRotation xs ys"
  by (auto simp: cyclicRotation_def)

lemma cyclicRotation_length: "cyclicRotation xs ys \<Longrightarrow> length ys = length xs"
  by (auto simp: cyclicRotation_def)

text \<open>
  On an engine whose comparator separates the points of the sequence, a
  permutation of the sequence has the same hull polygon, up to a cyclic rotation
  of the starting vertex. (With three or more points the two hulls are equal, see
  \<open>hull_permutation_large\<close>; with fewer the input itself is returned.) The engine
  without rounding is such an engine, for every sequence.
\<close>

lemma hull_order_invariant_separating:
  assumes "mset xs = mset ys" and sep: "separating E (pivotOf xs) (set xs)"
  shows "cyclicRotation (fst (computeConvexHull2D E xs)) (fst (computeConvexHull2D E ys))"
proof (cases "length xs < 3")
  case True
  have l: "length ys = length xs" using assms(1) by (metis size_mset)
  have hx: "fst (computeConvexHull2D E xs) = xs" and hy: "fst (computeConvexHull2D E ys) = ys"
    using True l by (simp_all add: computeConvexHull2D_def)
  from short_permutation [OF assms(1) True] show ?thesis
  proof
    assume "ys = xs"
    then have "ys = rotate 0 xs" by simp
    then show ?thesis unfolding hx hy by (intro cyclicRotationI [of 0]) simp_all
  next
    assume r: "ys = rotate 1 xs"
    show ?thesis
    proof (cases "xs = []")
      case True
      with r show ?thesis unfolding hx hy by (intro cyclicRotationI [of 0]) simp_all
    next
      case False
      with r show ?thesis unfolding hx hy
        by (intro cyclicRotationI [of 1]) (simp_all add: Suc_le_eq)
    qed
  qed
next
  case False
  then have "fst (computeConvexHull2D E ys) = rotate 0 (fst (computeConvexHull2D E xs))"
    using hull_permutation_large [OF assms(1) _ sep] by simp
  then show ?thesis by (intro cyclicRotationI [of 0]) simp_all
qed

lemma hull_order_invariant_exact:
  assumes "mset xs = mset ys"
  shows "cyclicRotation (fst (computeConvexHull2D exactEngine xs))
           (fst (computeConvexHull2D exactEngine ys))"
  using assms exactEngine_separating by (rule hull_order_invariant_separating)

text \<open>
  A sequence on which the comparator of an engine that rounds does not separate
  two points: the pivot \<open>(0, 0)\<close>, the point \<open>(1, 0)\<close>, and the two points
  \<open>a = (-1, 1/2)\<close> and \<open>b = (-1, 1/2 + 1/2^53)\<close>, one above the other. Whenever
  the engine returns the same angle and the same squared distance for \<open>a\<close> and
  \<open>b\<close>, and a smaller angle for \<open>(1, 0)\<close>, the sort keeps \<open>a\<close> and \<open>b\<close> in the order
  of the input. With \<open>a\<close> first the scan pops \<open>a\<close> when it reaches \<open>b\<close> (the turn at
  \<open>a\<close> is to the right, by \<open>1/2^52\<close>); with \<open>b\<close> first it keeps both.
\<close>

lemma tie_hull_a_first:
  assumes "angleKey E (Vector2 0 0) (Vector2 1 0) < angleKey E (Vector2 0 0) (Vector2 (- 1) (1 / 2))"
    and "angleKey E (Vector2 0 0) (Vector2 (- 1) (1 / 2)) =
         angleKey E (Vector2 0 0) (Vector2 (- 1) (1 / 2 + 1 / 2 ^ 53))"
    and "distKey E (Vector2 0 0) (Vector2 (- 1) (1 / 2)) =
         distKey E (Vector2 0 0) (Vector2 (- 1) (1 / 2 + 1 / 2 ^ 53))"
  shows "fst (computeConvexHull2D E
           [Vector2 0 0, Vector2 1 0, Vector2 (- 1) (1 / 2), Vector2 (- 1) (1 / 2 + 1 / 2 ^ 53)]) =
         [Vector2 0 0, Vector2 1 0, Vector2 (- 1) (1 / 2 + 1 / 2 ^ 53)]"
  using assms
  by (simp add: computeConvexHull2D_def findStart.simps Let_def compareAngle_keys
      popLoop.simps crossProduct_def)

lemma tie_hull_b_first:
  assumes "angleKey E (Vector2 0 0) (Vector2 1 0) < angleKey E (Vector2 0 0) (Vector2 (- 1) (1 / 2))"
    and "angleKey E (Vector2 0 0) (Vector2 (- 1) (1 / 2)) =
         angleKey E (Vector2 0 0) (Vector2 (- 1) (1 / 2 + 1 / 2 ^ 53))"
    and "distKey E (Vector2 0 0) (Vector2 (- 1) (1 / 2)) =
         distKey E (Vector2 0 0) (Vector2 (- 1) (1 / 2 + 1 / 2 ^ 53))"
  shows "fst (computeConvexHull2D E
           [Vector2 0 0, Vector2 1 0, Vector2 (- 1) (1 / 2 + 1 / 2 ^ 53), Vector2 (- 1) (1 / 2)]) =
         [Vector2 0 0, Vector2 1 0, Vector2 (- 1) (1 / 2 + 1 / 2 ^ 53), Vector2 (- 1) (1 / 2)]"
  using assms
  by (simp add: computeConvexHull2D_def findStart.simps Let_def compareAngle_keys
      popLoop.simps crossProduct_def)

text \<open>
  The engine with the multiples of a quarter as its numbers is an example: both
  points have the offsets \<open>(-1, 1/2)\<close> there.
\<close>

lemma quarterEngine_tie:
  "angleKey quarterEngine (Vector2 0 0) (Vector2 1 0) <
     angleKey quarterEngine (Vector2 0 0) (Vector2 (- 1) (1 / 2))"
  "angleKey quarterEngine (Vector2 0 0) (Vector2 (- 1) (1 / 2)) =
     angleKey quarterEngine (Vector2 0 0) (Vector2 (- 1) (1 / 2 + 1 / 2 ^ 53))"
  "distKey quarterEngine (Vector2 0 0) (Vector2 (- 1) (1 / 2)) =
     distKey quarterEngine (Vector2 0 0) (Vector2 (- 1) (1 / 2 + 1 / 2 ^ 53))"
proof -
  have f: "\<lfloor>4 * (1 / 2 + 1 / 2 ^ 53 :: real)\<rfloor> = 2"
    by (rule floor_unique) simp_all
  have k: "rnd quarterEngine (1 / 2 + 1 / 2 ^ 53) = 1 / 2" "rnd quarterEngine (1 / 2) = 1 / 2"
    "rnd quarterEngine (- 1) = - 1" "rnd quarterEngine 0 = 0" "rnd quarterEngine 1 = 1"
    using f by (simp_all add: quarterEngine_def)
  have m: "mathAtan2 quarterEngine = exactAtan2"
    by (simp add: quarterEngine_def)
  have "- (pi / 2) < arctan (- (1 / 2))" by (rule arctan_lbound)
  then have "0 < arctan (- (1 / 2)) + pi" using pi_gt_zero by linarith
  then show "angleKey quarterEngine (Vector2 0 0) (Vector2 1 0) <
     angleKey quarterEngine (Vector2 0 0) (Vector2 (- 1) (1 / 2))"
    by (simp add: angleKey_def k m exactAtan2_def)
  show "angleKey quarterEngine (Vector2 0 0) (Vector2 (- 1) (1 / 2)) =
     angleKey quarterEngine (Vector2 0 0) (Vector2 (- 1) (1 / 2 + 1 / 2 ^ 53))"
    unfolding angleKey_def by (simp only: vector2.sel diff_zero k)
  show "distKey quarterEngine (Vector2 0 0) (Vector2 (- 1) (1 / 2)) =
     distKey quarterEngine (Vector2 0 0) (Vector2 (- 1) (1 / 2 + 1 / 2 ^ 53))"
    unfolding distKey_def by (simp only: vector2.sel diff_zero k)
qed

text \<open>
  With the arithmetic of IEEE doubles the two squared distances are both \<open>5/4\<close>:
  the square of \<open>1/2 + 1/2^53\<close> rounds to \<open>1/4 + 1/2^53\<close>, and \<open>5/4 + 1/2^53\<close>
  is half-way between two doubles and rounds to the even one, \<open>5/4\<close>. The offsets
  are computed without error, so the hulls are as above as soon as \<open>Math.atan2\<close>
  returns the same number for the offsets \<open>(-1, 1/2)\<close> and \<open>(-1, 1/2 + 1/2^53)\<close>
  (two angles less than \<open>1/2^53\<close> apart, where the doubles are \<open>1/2^51\<close> apart).
\<close>

lemma roundEven_below:
  assumes "of_int n \<le> x" and "x < of_int n + 1 / 2"
  shows "roundEven x = n"
proof -
  from assms have "\<lfloor>x\<rfloor> = n" by (intro floor_unique) linarith+
  with assms show ?thesis by (simp add: roundEven_def Let_def)
qed

lemma roundEven_tie_even:
  assumes "x = of_int n + 1 / 2" and "even n"
  shows "roundEven x = n"
proof -
  from assms have "\<lfloor>x\<rfloor> = n" by (intro floor_unique) linarith+
  with assms show ?thesis by (simp add: roundEven_def Let_def)
qed

lemma roundDouble_binade:
  assumes "2 powr of_int k \<le> \<bar>x\<bar>" and "\<bar>x\<bar> < 2 powr of_int (k + 1)"
    and "roundEven (x / 2 powr of_int (k - 52)) = n"
  shows "roundDouble x = of_int n * 2 powr of_int (k - 52)"
proof -
  have "0 < 2 powr real_of_int k" by simp
  with assms(1) have pos: "0 < \<bar>x\<bar>" by linarith
  then have "\<lfloor>log 2 \<bar>x\<bar>\<rfloor> = k"
    using assms(1,2) by (subst floor_log_eq_powr_iff) auto
  with pos assms(3) show ?thesis by (auto simp: roundDouble_def Let_def)
qed

lemma roundDouble_units:
  "roundDouble 0 = 0" "roundDouble 1 = 1" "roundDouble (- 1) = - 1"
  "roundDouble (1 / 2) = 1 / 2" "roundDouble (1 / 4) = 1 / 4" "roundDouble (5 / 4) = 5 / 4"
proof -
  show "roundDouble 0 = 0" by (simp add: roundDouble_def)
  have "roundDouble 1 = of_int (2 ^ 52) * 2 powr of_int (0 - 52)"
    by (rule roundDouble_binade, simp, simp, rule roundEven_below)
      (simp_all add: powr_minus powr_numeral divide_simps)
  then show "roundDouble 1 = 1" by (simp add: powr_minus powr_numeral)
  have "roundDouble (- 1) = of_int (- (2 ^ 52)) * 2 powr of_int (0 - 52)"
    by (rule roundDouble_binade, simp, simp, rule roundEven_below)
      (simp_all add: powr_minus powr_numeral divide_simps)
  then show "roundDouble (- 1) = - 1" by (simp add: powr_minus powr_numeral)
  have "roundDouble (1 / 2) = of_int (2 ^ 52) * 2 powr of_int (- 1 - 52)"
    by (rule roundDouble_binade, simp add: powr_minus, simp, rule roundEven_below)
      (simp_all add: powr_minus powr_numeral divide_simps)
  then show "roundDouble (1 / 2) = 1 / 2" by (simp add: powr_minus powr_numeral)
  have "roundDouble (1 / 4) = of_int (2 ^ 52) * 2 powr of_int (- 2 - 52)"
    by (rule roundDouble_binade, simp add: powr_minus powr_numeral,
        simp add: powr_minus powr_numeral, rule roundEven_below)
      (simp_all add: powr_minus powr_numeral divide_simps)
  then show "roundDouble (1 / 4) = 1 / 4" by (simp add: powr_minus powr_numeral)
  have "roundDouble (5 / 4) = of_int (5 * 2 ^ 50) * 2 powr of_int (0 - 52)"
    by (rule roundDouble_binade, simp, simp, rule roundEven_below)
      (simp_all add: powr_minus powr_numeral divide_simps)
  then show "roundDouble (5 / 4) = 5 / 4" by (simp add: powr_minus powr_numeral)
qed

lemma roundDouble_offset: "roundDouble (1 / 2 + 1 / 2 ^ 53) = 1 / 2 + 1 / 2 ^ 53"
proof -
  have "roundDouble (1 / 2 + 1 / 2 ^ 53) = of_int (2 ^ 52 + 1) * 2 powr of_int (- 1 - 52)"
    by (rule roundDouble_binade, simp add: powr_minus powr_numeral,
        simp add: powr_minus powr_numeral, rule roundEven_below)
      (simp_all add: powr_minus powr_numeral divide_simps)
  then show ?thesis by (simp add: powr_minus powr_numeral)
qed

lemma roundDouble_square: "roundDouble ((1 / 2 + 1 / 2 ^ 53)\<^sup>2) = 1 / 4 + 1 / 2 ^ 53"
proof -
  have "roundDouble ((1 / 2 + 1 / 2 ^ 53)\<^sup>2) = of_int (2 ^ 52 + 2) * 2 powr of_int (- 2 - 52)"
    by (rule roundDouble_binade, simp add: powr_minus powr_numeral power2_eq_square,
        simp add: powr_minus powr_numeral power2_eq_square, rule roundEven_below)
      (simp_all add: powr_minus powr_numeral divide_simps power2_eq_square)
  then show ?thesis by (simp add: powr_minus powr_numeral)
qed

lemma roundDouble_sum: "roundDouble (1 + (1 / 4 + 1 / 2 ^ 53)) = 5 / 4"
proof -
  have "roundDouble (1 + (1 / 4 + 1 / 2 ^ 53)) = of_int (5 * 2 ^ 50) * 2 powr of_int (0 - 52)"
    by (rule roundDouble_binade, simp, simp, rule roundEven_tie_even)
      (simp_all add: powr_minus powr_numeral divide_simps)
  then show ?thesis by (simp add: powr_minus powr_numeral)
qed

lemma doubleEngine_keys:
  "angleKey (doubleEngine atn) (Vector2 0 0) (Vector2 1 0) = atn 0 1"
  "angleKey (doubleEngine atn) (Vector2 0 0) (Vector2 (- 1) (1 / 2)) = atn (1 / 2) (- 1)"
  "angleKey (doubleEngine atn) (Vector2 0 0) (Vector2 (- 1) (1 / 2 + 1 / 2 ^ 53)) =
     atn (1 / 2 + 1 / 2 ^ 53) (- 1)"
  "distKey (doubleEngine atn) (Vector2 0 0) (Vector2 (- 1) (1 / 2)) = 5 / 4"
  "distKey (doubleEngine atn) (Vector2 0 0) (Vector2 (- 1) (1 / 2 + 1 / 2 ^ 53)) = 5 / 4"
proof -
  have e: "mathAtan2 (doubleEngine atn) = atn" "rnd (doubleEngine atn) = roundDouble"
    "pow2 (doubleEngine atn) = (\<lambda>x. roundDouble (x\<^sup>2))"
    by (simp_all add: doubleEngine_def)
  have s: "(- 1 :: real)\<^sup>2 = 1" "(1 / 2 :: real)\<^sup>2 = 1 / 4" "(1 :: real) + 1 / 4 = 5 / 4"
    by (simp_all add: power2_eq_square)
  show "angleKey (doubleEngine atn) (Vector2 0 0) (Vector2 1 0) = atn 0 1"
    unfolding angleKey_def by (simp only: e vector2.sel diff_zero diff_self roundDouble_units)
  show "angleKey (doubleEngine atn) (Vector2 0 0) (Vector2 (- 1) (1 / 2)) = atn (1 / 2) (- 1)"
    unfolding angleKey_def by (simp only: e vector2.sel diff_zero roundDouble_units)
  show "angleKey (doubleEngine atn) (Vector2 0 0) (Vector2 (- 1) (1 / 2 + 1 / 2 ^ 53)) =
     atn (1 / 2 + 1 / 2 ^ 53) (- 1)"
    unfolding angleKey_def by (simp only: e vector2.sel diff_zero roundDouble_units roundDouble_offset)
  show "distKey (doubleEngine atn) (Vector2 0 0) (Vector2 (- 1) (1 / 2)) = 5 / 4"
    unfolding distKey_def by (simp only: e vector2.sel diff_zero roundDouble_units s)
  show "distKey (doubleEngine atn) (Vector2 0 0) (Vector2 (- 1) (1 / 2 + 1 / 2 ^ 53)) = 5 / 4"
    unfolding distKey_def
    by (simp only: e vector2.sel diff_zero roundDouble_units roundDouble_offset
        roundDouble_square roundDouble_sum s)
qed

lemma doubleEngine_hulls:
  assumes "atn 0 1 < atn (1 / 2) (- 1)" and "atn (1 / 2) (- 1) = atn (1 / 2 + 1 / 2 ^ 53) (- 1)"
  shows "fst (computeConvexHull2D (doubleEngine atn)
           [Vector2 0 0, Vector2 1 0, Vector2 (- 1) (1 / 2), Vector2 (- 1) (1 / 2 + 1 / 2 ^ 53)]) =
         [Vector2 0 0, Vector2 1 0, Vector2 (- 1) (1 / 2 + 1 / 2 ^ 53)]"
    and "fst (computeConvexHull2D (doubleEngine atn)
           [Vector2 0 0, Vector2 1 0, Vector2 (- 1) (1 / 2 + 1 / 2 ^ 53), Vector2 (- 1) (1 / 2)]) =
         [Vector2 0 0, Vector2 1 0, Vector2 (- 1) (1 / 2 + 1 / 2 ^ 53), Vector2 (- 1) (1 / 2)]"
proof -
  have k: "angleKey (doubleEngine atn) (Vector2 0 0) (Vector2 1 0) <
      angleKey (doubleEngine atn) (Vector2 0 0) (Vector2 (- 1) (1 / 2))"
    "angleKey (doubleEngine atn) (Vector2 0 0) (Vector2 (- 1) (1 / 2)) =
      angleKey (doubleEngine atn) (Vector2 0 0) (Vector2 (- 1) (1 / 2 + 1 / 2 ^ 53))"
    "distKey (doubleEngine atn) (Vector2 0 0) (Vector2 (- 1) (1 / 2)) =
      distKey (doubleEngine atn) (Vector2 0 0) (Vector2 (- 1) (1 / 2 + 1 / 2 ^ 53))"
    using assms by (simp_all only: doubleEngine_keys)
  show "fst (computeConvexHull2D (doubleEngine atn)
           [Vector2 0 0, Vector2 1 0, Vector2 (- 1) (1 / 2), Vector2 (- 1) (1 / 2 + 1 / 2 ^ 53)]) =
         [Vector2 0 0, Vector2 1 0, Vector2 (- 1) (1 / 2 + 1 / 2 ^ 53)]"
    using k by (rule tie_hull_a_first)
  show "fst (computeConvexHull2D (doubleEngine atn)
           [Vector2 0 0, Vector2 1 0, Vector2 (- 1) (1 / 2 + 1 / 2 ^ 53), Vector2 (- 1) (1 / 2)]) =
         [Vector2 0 0, Vector2 1 0, Vector2 (- 1) (1 / 2 + 1 / 2 ^ 53), Vector2 (- 1) (1 / 2)]"
    using k by (rule tie_hull_b_first)
qed

text \<open>
  Claim C8 says that a permutation of the point sequence gives the same hull
  polygon, up to a cyclic rotation of the starting vertex. The comparator of the
  sort compares rounded keys, \<open>Math.atan2\<close> of the offsets and then the squared
  distance, and the sort is stable: two points with equal keys stay in the order
  of the input, and the scan that follows depends on that order. On the sequence
  above, whenever the keys of \<open>a\<close> and \<open>b\<close> are equal, the hull has three vertices
  with \<open>a\<close> before \<open>b\<close> in the input and four with \<open>b\<close> before \<open>a\<close>, so the two
  hulls are not rotations of each other.
\<close>

theorem hull_depends_on_input_order:
  assumes "angleKey E (Vector2 0 0) (Vector2 1 0) < angleKey E (Vector2 0 0) (Vector2 (- 1) (1 / 2))"
    and "angleKey E (Vector2 0 0) (Vector2 (- 1) (1 / 2)) =
         angleKey E (Vector2 0 0) (Vector2 (- 1) (1 / 2 + 1 / 2 ^ 53))"
    and "distKey E (Vector2 0 0) (Vector2 (- 1) (1 / 2)) =
         distKey E (Vector2 0 0) (Vector2 (- 1) (1 / 2 + 1 / 2 ^ 53))"
  shows
    "mset [Vector2 0 0, Vector2 1 0, Vector2 (- 1) (1 / 2), Vector2 (- 1) (1 / 2 + 1 / 2 ^ 53)] =
     mset [Vector2 0 0, Vector2 1 0, Vector2 (- 1) (1 / 2 + 1 / 2 ^ 53), Vector2 (- 1) (1 / 2)] \<and>
     fst (computeConvexHull2D E
       [Vector2 0 0, Vector2 1 0, Vector2 (- 1) (1 / 2), Vector2 (- 1) (1 / 2 + 1 / 2 ^ 53)]) =
       [Vector2 0 0, Vector2 1 0, Vector2 (- 1) (1 / 2 + 1 / 2 ^ 53)] \<and>
     fst (computeConvexHull2D E
       [Vector2 0 0, Vector2 1 0, Vector2 (- 1) (1 / 2 + 1 / 2 ^ 53), Vector2 (- 1) (1 / 2)]) =
       [Vector2 0 0, Vector2 1 0, Vector2 (- 1) (1 / 2 + 1 / 2 ^ 53), Vector2 (- 1) (1 / 2)] \<and>
     \<not> cyclicRotation
       (fst (computeConvexHull2D E
         [Vector2 0 0, Vector2 1 0, Vector2 (- 1) (1 / 2), Vector2 (- 1) (1 / 2 + 1 / 2 ^ 53)]))
       (fst (computeConvexHull2D E
         [Vector2 0 0, Vector2 1 0, Vector2 (- 1) (1 / 2 + 1 / 2 ^ 53), Vector2 (- 1) (1 / 2)]))"
proof -
  let ?xs = "[Vector2 0 0, Vector2 1 0, Vector2 (- 1) (1 / 2), Vector2 (- 1) (1 / 2 + 1 / 2 ^ 53)]"
  let ?ys = "[Vector2 0 0, Vector2 1 0, Vector2 (- 1) (1 / 2 + 1 / 2 ^ 53), Vector2 (- 1) (1 / 2)]"
  have m: "mset ?xs = mset ?ys" by simp
  note hx = tie_hull_a_first [OF assms]
  note hy = tie_hull_b_first [OF assms]
  have "\<not> cyclicRotation (fst (computeConvexHull2D E ?xs)) (fst (computeConvexHull2D E ?ys))"
  proof
    assume "cyclicRotation (fst (computeConvexHull2D E ?xs)) (fst (computeConvexHull2D E ?ys))"
    then have "length (fst (computeConvexHull2D E ?ys)) = length (fst (computeConvexHull2D E ?xs))"
      by (rule cyclicRotation_length)
    then show False unfolding hx hy by simp
  qed
  with m hx hy show ?thesis by blast
qed

theorem hull_depends_on_input_order_witness:
  "angleKey quarterEngine (Vector2 0 0) (Vector2 1 0) <
     angleKey quarterEngine (Vector2 0 0) (Vector2 (- 1) (1 / 2)) \<and>
   angleKey quarterEngine (Vector2 0 0) (Vector2 (- 1) (1 / 2)) =
     angleKey quarterEngine (Vector2 0 0) (Vector2 (- 1) (1 / 2 + 1 / 2 ^ 53)) \<and>
   distKey quarterEngine (Vector2 0 0) (Vector2 (- 1) (1 / 2)) =
     distKey quarterEngine (Vector2 0 0) (Vector2 (- 1) (1 / 2 + 1 / 2 ^ 53)) \<and>
   length (fst (computeConvexHull2D quarterEngine
     [Vector2 0 0, Vector2 1 0, Vector2 (- 1) (1 / 2), Vector2 (- 1) (1 / 2 + 1 / 2 ^ 53)])) = 3 \<and>
   length (fst (computeConvexHull2D quarterEngine
     [Vector2 0 0, Vector2 1 0, Vector2 (- 1) (1 / 2 + 1 / 2 ^ 53), Vector2 (- 1) (1 / 2)])) = 4"
proof -
  note k = quarterEngine_tie
  from hull_depends_on_input_order [OF k] have
    "length (fst (computeConvexHull2D quarterEngine
       [Vector2 0 0, Vector2 1 0, Vector2 (- 1) (1 / 2), Vector2 (- 1) (1 / 2 + 1 / 2 ^ 53)])) = 3"
    "length (fst (computeConvexHull2D quarterEngine
       [Vector2 0 0, Vector2 1 0, Vector2 (- 1) (1 / 2 + 1 / 2 ^ 53), Vector2 (- 1) (1 / 2)])) = 4"
    by simp_all
  with k show ?thesis by blast
qed


section \<open>Convex hull: containment\<close>

lemma popLoop_rev: "popLoop (rev st) s = rev (popRev st s)"
proof (induction st s rule: popRev.induct)
  case (1 b a hs s)
  have n: "1 < length (rev (b # a # hs))" by simp
  have i2: "rev (b # a # hs) ! (length (rev (b # a # hs)) - 2) = a"
    by (simp add: nth_append)
  have i1: "rev (b # a # hs) ! (length (rev (b # a # hs)) - 1) = b"
    by (simp add: nth_append)
  have bl: "butlast (rev (b # a # hs)) = rev (a # hs)"
    by (simp add: butlast_append)
  have "popLoop (rev (b # a # hs)) s =
        (if crossProduct a b s \<le> 0 then popLoop (rev (a # hs)) s else rev (b # a # hs))"
    by (subst popLoop.simps) (simp only: n i2 i1 bl simp_thms)
  with 1 show ?case by simp
next
  case (2 b s)
  show ?case by (subst popLoop.simps) simp
next
  case (3 s)
  show ?case by (subst popLoop.simps) simp
qed

lemma buildHull_rev: "buildHull (rev st) ss = rev (buildRev st ss)"
proof (induction ss arbitrary: st)
  case Nil
  show ?case by simp
next
  case (Cons s ss)
  have "buildHull (rev st) (s # ss) = buildHull (rev (s # popRev st s)) ss"
    by (simp add: popLoop_rev)
  then show ?case by (simp only: Cons.IH buildRev.simps)
qed

lemma popRev_suffix: "\<exists>us. st = us @ popRev st s"
proof (induction st s rule: popRev.induct)
  case (1 b a hs s)
  show ?case
  proof (cases "crossProduct a b s \<le> 0")
    case True
    with 1 obtain us where "a # hs = us @ popRev (a # hs) s" by blast
    then have "b # a # hs = (b # us) @ popRev (a # hs) s" by simp
    moreover have "popRev (b # a # hs) s = popRev (a # hs) s" using True by simp
    ultimately have "b # a # hs = (b # us) @ popRev (b # a # hs) s" by (simp only:)
    then show ?thesis by (rule exI)
  next
    case False
    then show ?thesis by simp
  qed
qed simp_all

lemma popRev_nonempty: "st \<noteq> [] \<Longrightarrow> popRev st s \<noteq> []"
  by (induction st s rule: popRev.induct) auto

lemma popRev_exit: "popRev st s = t # z # r \<Longrightarrow> 0 < crossProduct z t s"
  by (induction st s rule: popRev.induct) (auto split: if_splits)

lemma popRev_popped:
  "popRev st s \<noteq> st \<Longrightarrow>
     \<exists>us b. st = us @ b # popRev st s \<and> crossProduct (hd (popRev st s)) b s \<le> 0"
proof (induction st s rule: popRev.induct)
  case (1 b a hs s)
  from "1.prems" have c: "crossProduct a b s \<le> 0"
    by (auto split: if_splits)
  show ?case
  proof (cases "popRev (a # hs) s = a # hs")
    case True
    with c have "b # a # hs = [] @ b # popRev (b # a # hs) s \<and>
                 crossProduct (hd (popRev (b # a # hs) s)) b s \<le> 0"
      by simp
    then show ?thesis by blast
  next
    case False
    with "1.IH" c obtain us b' where
      "a # hs = us @ b' # popRev (a # hs) s \<and> crossProduct (hd (popRev (a # hs) s)) b' s \<le> 0"
      by blast
    with c have "b # a # hs = (b # us) @ b' # popRev (b # a # hs) s \<and>
                 crossProduct (hd (popRev (b # a # hs) s)) b' s \<le> 0"
      by simp
    then show ?thesis by blast
  qed
qed simp_all


lemma leftOfChain_tail: "leftOfChain q (u # ws) \<Longrightarrow> leftOfChain q ws"
  by (cases ws) simp_all

lemma leftOfChain_append: "leftOfChain q (us @ vs) \<Longrightarrow> leftOfChain q vs"
  by (induction us) (auto dest: leftOfChain_tail)

lemma leftOfChain_edge: "leftOfChain q (us @ b # t # r) \<Longrightarrow> 0 \<le> crossProduct t b q"
  by (drule leftOfChain_append) simp

lemma chainConvex_tail: "chainConvex (u # ws) \<Longrightarrow> chainConvex ws"
  by (cases ws rule: chainConvex.cases) simp_all

lemma chainConvex_append: "chainConvex (us @ vs) \<Longrightarrow> chainConvex vs"
  by (induction us) (auto dest: chainConvex_tail)

lemma chainAngular_tail: "chainAngular p (u # ws) \<Longrightarrow> chainAngular p ws"
  by (cases ws rule: chainConvex.cases) simp_all

lemma chainAngular_append: "chainAngular p (us @ vs) \<Longrightarrow> chainAngular p vs"
  by (induction us) (auto dest: chainAngular_tail)

lemma chainAngular_edge:
  "chainAngular p (us @ b # t # z # r) \<Longrightarrow> 0 < crossProduct p t b"
  by (drule chainAngular_append) simp

lemma new_point_left_of_chain:
  assumes "chainConvex (c # b # r)" and "chainAngular p (c # b # r)"
    and "leftOfChain p (c # b # r)" and "\<forall>x \<in> set (c # b # r). 0 \<le> crossProduct p x s"
    and "0 \<le> crossProduct b c s"
  shows "leftOfChain s (c # b # r)"
  using assms
proof (induction r arbitrary: c b)
  case Nil
  then show ?case by simp
next
  case (Cons a r)
  have "0 \<le> crossProduct a b p" using Cons.prems(3) by simp
  then have pab: "0 \<le> crossProduct p a b"
    by (simp add: cross_rot [of p a b])
  have "0 \<le> crossProduct a b s"
  proof (rule turn_down_chain)
    show "0 < crossProduct p b c" using Cons.prems(2) by simp
    show "0 \<le> crossProduct b c s" by (rule Cons.prems(5))
    show "0 \<le> crossProduct p a b" by (rule pab)
    show "0 < crossProduct a b c" using Cons.prems(1) by simp
    show "0 \<le> crossProduct p b s" using Cons.prems(4) by simp
  qed
  moreover from this have "leftOfChain s (b # a # r)"
    using Cons.prems by (intro Cons.IH) simp_all
  ultimately show ?case using Cons.prems(5) by simp
qed


lemma scan_new_edge:
  assumes inv: "scanInv p P st" and ord: "\<forall>q \<in> P. angularBefore p q s"
    and t: "popRev st s = t # rest" and q: "q \<in> P"
  shows "0 \<le> crossProduct t s q"
proof -
  from inv have lst: "last st = p" and sub: "set st \<subseteq> P"
    and left: "\<forall>q \<in> P. leftOfChain q st" and top: "\<forall>q \<in> P. angularBefore p q (hd st)"
    and ang: "chainAngular p st"
    by (simp_all add: scanInv_def)
  obtain us where us: "st = us @ t # rest"
    using popRev_suffix [of st s] t by auto
  have tP: "t \<in> P" using sub us by auto
  have pts: "0 \<le> crossProduct p t s"
    using ord tP by (auto dest: angularBefore_cross)
  have lq: "leftOfChain q (t # rest)"
    using left q us leftOfChain_append by blast
  have ang': "chainAngular p (t # rest)"
    using ang us chainAngular_append by blast
  have lst': "last (t # rest) = p"
    using lst us by simp
  show ?thesis
  proof (cases rest)
    case Nil
    with lst' have tp: "t = p" by simp
    show ?thesis
    proof (cases "popRev st s = st")
      case True
      with t Nil tp have "hd st = p" by simp
      with top q have "angularBefore p q p" by auto
      then have "q = p" by (rule angularBefore_pivot_right)
      with tp show ?thesis by simp
    next
      case False
      then obtain us' b where st: "st = us' @ b # popRev st s"
        and pop: "crossProduct (hd (popRev st s)) b s \<le> 0"
        using popRev_popped [of st s] by blast
      from st t Nil tp have st2: "st = us' @ [b, p]" by simp
      have bP: "b \<in> P" using sub st2 by auto
      with ord have ab: "angularBefore p b s" by blast
      from pop t tp have "crossProduct p b s \<le> 0" by simp
      with ab have c0: "crossProduct p b s = 0" and d: "dotFrom p b b \<le> dotFrom p b s"
        by (auto simp: angularBefore_def)
      show ?thesis
      proof (cases "b = p")
        case True
        have "us' = []"
        proof (rule ccontr)
          assume "us' \<noteq> []"
          then obtain us'' c where "us' = us'' @ [c]"
            by (cases us' rule: rev_cases) auto
          with st2 have "st = us'' @ c # b # p # []" by simp
          with ang have "0 < crossProduct p b c" by (metis chainAngular_edge)
          with True show False by simp
        qed
        with st2 True have "hd st = p" by simp
        with top q have "angularBefore p q p" by auto
        then have "q = p" by (rule angularBefore_pivot_right)
        with tp show ?thesis by simp
      next
        case False
        have "leftOfChain q (us' @ b # p # [])"
          using left q st2 by simp
        then have "0 \<le> crossProduct p b q" by (rule leftOfChain_edge)
        with c0 d False have "0 \<le> crossProduct p s q" by (rule turn_collinear_base)
        with tp show ?thesis by simp
      qed
    qed
  next
    case (Cons z r)
    have exit: "0 < crossProduct z t s"
      using t Cons by (intro popRev_exit [of st s t z r]) simp
    have ztq: "0 \<le> crossProduct z t q"
      using lq Cons by simp
    have below: "0 \<le> crossProduct t s q" if pos: "0 < crossProduct p q t"
    proof (cases r)
      case Nil
      with lst' Cons have "z = p" by simp
      with ztq have "0 \<le> crossProduct p t q" by simp
      with pos show ?thesis by (simp add: cross_flip [of p t q])
    next
      case (Cons y r')
      with ang' \<open>rest = z # r\<close> have "0 < crossProduct p z t" by simp
      then show ?thesis using pts ztq
      proof (rule turn_below_top)
        show "0 \<le> crossProduct z t s" using exit by simp
        show "0 \<le> crossProduct p q t" using pos by simp
      qed
    qed
    show ?thesis
    proof (cases "popRev st s = st")
      case True
      with t have "hd st = t" by simp
      with top q have "angularBefore p q t" by auto
      then consider "0 < crossProduct p q t"
        | "crossProduct p q t = 0" "dotFrom p q q \<le> dotFrom p q t"
        by (auto simp: angularBefore_def)
      then show ?thesis
      proof cases
        case 1
        then show ?thesis by (rule below)
      next
        case 2
        then show ?thesis using pts by (rule turn_collinear_inner)
      qed
    next
      case False
      then obtain us' b where st: "st = us' @ b # popRev st s"
        and pop: "crossProduct (hd (popRev st s)) b s \<le> 0"
        using popRev_popped [of st s] by blast
      from st t Cons have st2: "st = us' @ b # t # z # r" by simp
      from pop t have tbs: "crossProduct t b s \<le> 0" by simp
      have ptb: "0 < crossProduct p t b"
        using ang st2 by (metis chainAngular_edge)
      have "leftOfChain q (us' @ b # t # z # r)"
        using left q st2 by simp
      then have tbq: "0 \<le> crossProduct t b q" by (rule leftOfChain_edge)
      show ?thesis
      proof (cases "0 \<le> crossProduct p t q")
        case True
        with ptb tbs tbq pts show ?thesis by (rule turn_after_pop)
      next
        case False
        then have "0 < crossProduct p q t" by (simp add: cross_flip [of p q t])
        then show ?thesis by (rule below)
      qed
    qed
  qed
qed


lemma scan_step:
  assumes inv: "scanInv p P st" and ord: "\<forall>q \<in> P. angularBefore p q s"
  shows "scanInv p (insert s P) (s # popRev st s)"
proof -
  from inv have ne: "st \<noteq> []" and lst: "last st = p" and sub: "set st \<subseteq> P" and pP: "p \<in> P"
    and left: "\<forall>q \<in> P. leftOfChain q st"
    and cvx: "chainConvex st" and ang: "chainAngular p st"
    by (simp_all add: scanInv_def)
  obtain t rest where t: "popRev st s = t # rest"
    using popRev_nonempty [OF ne, of s] by (cases "popRev st s") auto
  obtain us where us: "st = us @ t # rest"
    using popRev_suffix [of st s] t by auto
  have sub': "set (t # rest) \<subseteq> P" using sub us by auto
  have lst': "last (t # rest) = p" using lst us by simp
  have left': "\<forall>q \<in> P. leftOfChain q (t # rest)"
    using left us leftOfChain_append by blast
  have cvx': "chainConvex (t # rest)"
    using cvx us chainConvex_append by blast
  have ang': "chainAngular p (t # rest)"
    using ang us chainAngular_append by blast
  have edge: "\<forall>q \<in> P. 0 \<le> crossProduct t s q"
    using scan_new_edge [OF inv ord t] by blast
  have before: "\<forall>x \<in> set (t # rest). 0 \<le> crossProduct p x s"
    using sub' ord by (auto dest: angularBefore_cross)
  have sleft: "leftOfChain s (t # rest)"
  proof (cases rest)
    case Nil
    then show ?thesis by simp
  next
    case (Cons z r)
    have "0 < crossProduct z t s"
      using t Cons by (intro popRev_exit [of st s t z r]) simp
    then have e: "0 \<le> crossProduct z t s" by simp
    have "leftOfChain s (t # z # r)"
    proof (rule new_point_left_of_chain)
      show "chainConvex (t # z # r)" using cvx' Cons by simp
      show "chainAngular p (t # z # r)" using ang' Cons by simp
      show "leftOfChain p (t # z # r)" using left' pP Cons by blast
      show "\<forall>x \<in> set (t # z # r). 0 \<le> crossProduct p x s" using before Cons by simp
      show "0 \<le> crossProduct z t s" by (rule e)
    qed
    then show ?thesis by (simp only: Cons)
  qed
  have cvx'': "chainConvex (s # t # rest)"
  proof (cases rest)
    case Nil
    then show ?thesis by simp
  next
    case (Cons z r)
    have "0 < crossProduct z t s"
      using t Cons by (intro popRev_exit [of st s t z r]) simp
    with cvx' Cons show ?thesis by simp
  qed
  have ang'': "chainAngular p (s # t # rest)"
  proof (cases rest)
    case Nil
    then show ?thesis by simp
  next
    case (Cons z r)
    have exit: "0 < crossProduct z t s"
      using t Cons by (intro popRev_exit [of st s t z r]) simp
    have tP: "angularBefore p t s" using sub' ord by auto
    have "0 < crossProduct p t s"
    proof (cases r)
      case Nil
      with lst' Cons have "z = p" by simp
      with exit show ?thesis by simp
    next
      case (Cons y r')
      with ang' \<open>rest = z # r\<close> have "0 < crossProduct p z t" by simp
      with tP exit show ?thesis by (rule strict_angle_kept)
    qed
    with ang' Cons show ?thesis by simp
  qed
  show ?thesis
    unfolding scanInv_def t
  proof (intro conjI ballI)
    show "s # t # rest \<noteq> []" by simp
    show "last (s # t # rest) = p" using lst' by simp
    show "set (s # t # rest) \<subseteq> insert s P" using sub' by auto
    show "p \<in> insert s P" using pP by simp
    show "leftOfChain q (s # t # rest)" if "q \<in> insert s P" for q
    proof (cases "q = s")
      case True
      with sleft show ?thesis by simp
    next
      case False
      with that have "q \<in> P" by simp
      with left' edge show ?thesis by simp
    qed
    show "angularBefore p q (hd (s # t # rest))" if "q \<in> insert s P" for q
    proof (cases "q = s")
      case True
      then show ?thesis by simp
    next
      case False
      with that ord show ?thesis by simp
    qed
    show "chainConvex (s # t # rest)" by (rule cvx'')
    show "chainAngular p (s # t # rest)" by (rule ang'')
  qed
qed

lemma buildRev_inv:
  assumes "scanInv p P st" and "sorted_wrt (angularBefore p) ss"
    and "\<forall>q \<in> P. \<forall>s \<in> set ss. angularBefore p q s"
  shows "scanInv p (P \<union> set ss) (buildRev st ss)"
  using assms
proof (induction ss arbitrary: st P)
  case Nil
  then show ?case by simp
next
  case (Cons s ss)
  have step: "scanInv p (insert s P) (s # popRev st s)"
    using Cons.prems(1,3) by (intro scan_step) auto
  have "scanInv p (insert s P \<union> set ss) (buildRev (s # popRev st s) ss)"
    using step Cons.prems(2,3) by (intro Cons.IH) auto
  then show ?case by simp
qed

lemma scanInv_start: "scanInv p {p} [p]"
  by (simp add: scanInv_def)

lemma leftOfChain_nth:
  "leftOfChain q st \<Longrightarrow> Suc j < length st \<Longrightarrow> 0 \<le> crossProduct (st ! Suc j) (st ! j) q"
proof (induction q st arbitrary: j rule: leftOfChain.induct)
  case (1 q b a r)
  then show ?case by (cases j) auto
qed simp_all

lemma scanInv_inside:
  assumes "scanInv p P st" and "q \<in> P"
  shows "insideOrOn (rev st) q"
  unfolding insideOrOn_def
proof (intro allI impI)
  fix i assume "i < length (rev st)"
  then have i: "i < length st" by simp
  from assms have ne: "st \<noteq> []" and lst: "last st = p"
    and left: "leftOfChain q st" and top: "angularBefore p q (hd st)"
    by (simp_all add: scanInv_def)
  show "0 \<le> crossProduct (rev st ! i) (rev st ! ((i + 1) mod length (rev st))) q"
  proof (cases "Suc i < length st")
    case True
    define j where "j = length st - Suc (Suc i)"
    have j: "Suc j < length st" "length st - Suc i = Suc j"
      using True by (simp_all add: j_def)
    have "rev st ! i = st ! Suc j" using i j by (simp add: rev_nth)
    moreover have "rev st ! Suc i = st ! j" using True by (simp add: rev_nth j_def)
    moreover have "0 \<le> crossProduct (st ! Suc j) (st ! j) q"
      using left j(1) by (rule leftOfChain_nth)
    ultimately show ?thesis using True by simp
  next
    case False
    with i have e: "Suc i = length st" by simp
    then have "rev st ! i = hd st"
      using ne by (simp add: rev_nth hd_conv_nth)
    moreover have "rev st ! 0 = p"
      using ne lst by (simp add: rev_nth last_conv_nth)
    moreover have "0 \<le> crossProduct p q (hd st)"
      using top by (rule angularBefore_cross)
    ultimately show ?thesis
      using e by (simp add: cross_rot [of "hd st" p q])
  qed
qed


text \<open>
  On an engine whose comparator is faithful to the angular order around the
  pivot, the sorted sequence is in angular order, the scan keeps its invariant,
  and every input point is on or inside the returned polygon.
\<close>

lemma sorted_angular:
  assumes "pts \<noteq> []" and faithful: "angleFaithful E (pivotOf pts) (set pts)"
  shows "sorted_wrt (angularBefore (pivotOf pts))
           (sortBy (compareAngle E (pivotOf pts)) (restOf pts))"
proof -
  let ?p = "pivotOf pts"
  let ?ss = "sortBy (compareAngle E ?p) (restOf pts)"
  have sub: "a \<in> set pts" if "a \<in> set ?ss" for a
    using that set_pivot_rest [OF assms(1)] by (auto simp: set_sortBy)
  have "sorted_wrt (\<lambda>a b. compareAngle E ?p a b \<le> 0) ?ss"
    by (rule sorted_sortBy) (rule compareAngle_total, rule compareAngle_trans)
  then show ?thesis
  proof (rule sorted_wrt_mono_rel [rotated])
    fix a b assume "a \<in> set ?ss" and "b \<in> set ?ss" and "compareAngle E ?p a b \<le> 0"
    then show "angularBefore ?p a b"
      using faithful sub by (auto simp: angleFaithful_def)
  qed
qed

lemma hull_contains_points:
  assumes "3 \<le> length pts" and "q \<in> set pts"
    and faithful: "angleFaithful E (pivotOf pts) (set pts)"
  shows "insideOrOn (fst (computeConvexHull2D E pts)) q"
proof -
  from assms(1) have ne: "pts \<noteq> []" by auto
  let ?p = "pivotOf pts"
  let ?ss = "sortBy (compareAngle E ?p) (restOf pts)"
  have "scanInv ?p ({?p} \<union> set ?ss) (buildRev [?p] ?ss)"
    using scanInv_start sorted_angular [OF ne faithful] by (rule buildRev_inv) simp
  moreover have "{?p} \<union> set ?ss = set pts"
    using set_pivot_rest [OF ne] by (simp add: set_sortBy)
  ultimately have "scanInv ?p (set pts) (buildRev [?p] ?ss)" by simp
  then have "insideOrOn (rev (buildRev [?p] ?ss)) q"
    using assms(2) by (rule scanInv_inside)
  moreover have "fst (computeConvexHull2D E pts) = rev (buildRev [?p] ?ss)"
    using buildHull_rev [of "[?p]" ?ss] by (simp add: computeConvexHull2D_large [OF assms(1)])
  ultimately show ?thesis by simp
qed

lemma hull_encloses_input_faithful:
  assumes "3 \<le> length (fst (computeConvexHull2D E pts))"
    and "angleFaithful E (pivotOf pts) (set pts)"
  shows "\<forall>q \<in> set pts. insideOrOn (fst (computeConvexHull2D E pts)) q"
proof -
  have "3 \<le> length pts"
  proof (rule ccontr)
    assume "\<not> 3 \<le> length pts"
    then have "fst (computeConvexHull2D E pts) = pts" by (simp add: computeConvexHull2D_def)
    with assms(1) \<open>\<not> 3 \<le> length pts\<close> show False by simp
  qed
  then show ?thesis using hull_contains_points assms(2) by blast
qed

text \<open>The engine without rounding is faithful, for every sequence.\<close>

lemma hull_encloses_input_exact:
  assumes "3 \<le> length (fst (computeConvexHull2D exactEngine pts))"
  shows "\<forall>q \<in> set pts. insideOrOn (fst (computeConvexHull2D exactEngine pts)) q"
proof (cases "pts = []")
  case True
  then show ?thesis by simp
next
  case False
  then have "angleFaithful exactEngine (pivotOf pts) (set pts)"
    by (intro exactEngine_angleFaithful pivotOf_lowest(2))
  with assms show ?thesis by (rule hull_encloses_input_faithful)
qed

lemma set_popRev: "set (popRev st s) \<subseteq> set st"
proof -
  obtain us where "st = us @ popRev st s" using popRev_suffix by blast
  then have "set st = set us \<union> set (popRev st s)" by (metis set_append)
  then show ?thesis by blast
qed

lemma set_buildRev: "set (buildRev st ss) \<subseteq> set st \<union> set ss"
proof (induction ss arbitrary: st)
  case Nil
  show ?case by simp
next
  case (Cons s ss)
  have "set (buildRev (s # popRev st s) ss) \<subseteq> set (s # popRev st s) \<union> set ss"
    by (rule Cons.IH)
  with set_popRev [of st s] show ?case by auto
qed

text \<open>On every engine the vertices of the hull are input points.\<close>

lemma hull_vertices_are_input:
  "set (fst (computeConvexHull2D E pts)) \<subseteq> set pts"
proof (cases "3 \<le> length pts")
  case False
  then show ?thesis by (simp add: computeConvexHull2D_def)
next
  case True
  then have ne: "pts \<noteq> []" by auto
  let ?p = "pivotOf pts"
  let ?ss = "sortBy (compareAngle E ?p) (restOf pts)"
  have "set (buildRev [?p] ?ss) \<subseteq> set [?p] \<union> set ?ss"
    by (rule set_buildRev)
  moreover have "{?p} \<union> set ?ss = set pts"
    using set_pivot_rest [OF ne] by (simp add: set_sortBy)
  ultimately have "set (buildRev [?p] ?ss) \<subseteq> set pts" by auto
  moreover have "fst (computeConvexHull2D E pts) = rev (buildRev [?p] ?ss)"
    using buildHull_rev [of "[?p]" ?ss] by (simp add: computeConvexHull2D_large [OF True])
  ultimately show ?thesis by simp
qed

text \<open>
  Claim C3 says that whenever \<open>computeConvexHull2D\<close> returns at least three
  vertices, every input point lies on or inside the returned polygon. The scan
  decides a turn by the sign of a cross product, the sort before it orders the
  points by the rounded \<open>Math.atan2\<close> of their offsets and then by the rounded
  squared distance. On the sequence \<open>(0, 0)\<close>, \<open>(1, 0)\<close>, \<open>a = (-1, 1/2)\<close>,
  \<open>b = (-1, 1/2 + 1/2^53)\<close>, whenever the engine returns the same two keys for
  \<open>a\<close> and \<open>b\<close> (and a smaller angle for \<open>(1, 0)\<close>), the sort leaves \<open>a\<close> before
  \<open>b\<close>, the scan pops \<open>a\<close>, and the hull is the triangle \<open>(0, 0)\<close>, \<open>(1, 0)\<close>, \<open>b\<close>:
  it has three vertices in counter-clockwise order, and the input point \<open>a\<close> is
  strictly to the right of its edge from \<open>b\<close> to \<open>(0, 0)\<close>, outside the polygon.
\<close>

theorem hull_misses_input_point:
  assumes "angleKey E (Vector2 0 0) (Vector2 1 0) < angleKey E (Vector2 0 0) (Vector2 (- 1) (1 / 2))"
    and "angleKey E (Vector2 0 0) (Vector2 (- 1) (1 / 2)) =
         angleKey E (Vector2 0 0) (Vector2 (- 1) (1 / 2 + 1 / 2 ^ 53))"
    and "distKey E (Vector2 0 0) (Vector2 (- 1) (1 / 2)) =
         distKey E (Vector2 0 0) (Vector2 (- 1) (1 / 2 + 1 / 2 ^ 53))"
  shows
    "fst (computeConvexHull2D E
       [Vector2 0 0, Vector2 1 0, Vector2 (- 1) (1 / 2), Vector2 (- 1) (1 / 2 + 1 / 2 ^ 53)]) =
       [Vector2 0 0, Vector2 1 0, Vector2 (- 1) (1 / 2 + 1 / 2 ^ 53)] \<and>
     3 \<le> length (fst (computeConvexHull2D E
       [Vector2 0 0, Vector2 1 0, Vector2 (- 1) (1 / 2), Vector2 (- 1) (1 / 2 + 1 / 2 ^ 53)])) \<and>
     Vector2 (- 1) (1 / 2) \<in>
       set [Vector2 0 0, Vector2 1 0, Vector2 (- 1) (1 / 2), Vector2 (- 1) (1 / 2 + 1 / 2 ^ 53)] \<and>
     0 < crossProduct (Vector2 0 0) (Vector2 1 0) (Vector2 (- 1) (1 / 2 + 1 / 2 ^ 53)) \<and>
     crossProduct (Vector2 (- 1) (1 / 2 + 1 / 2 ^ 53)) (Vector2 0 0) (Vector2 (- 1) (1 / 2)) < 0 \<and>
     \<not> insideOrOn
       (fst (computeConvexHull2D E
         [Vector2 0 0, Vector2 1 0, Vector2 (- 1) (1 / 2), Vector2 (- 1) (1 / 2 + 1 / 2 ^ 53)]))
       (Vector2 (- 1) (1 / 2))"
proof -
  let ?a = "Vector2 (- 1) (1 / 2)"
  let ?b = "Vector2 (- 1) (1 / 2 + 1 / 2 ^ 53)"
  let ?xs = "[Vector2 0 0, Vector2 1 0, ?a, ?b]"
  note h = tie_hull_a_first [OF assms]
  have l: "3 \<le> length (fst (computeConvexHull2D E ?xs))"
    unfolding h by simp
  have m: "?a \<in> set ?xs" by simp
  have c: "crossProduct ?b (Vector2 0 0) ?a < 0"
    by (simp add: crossProduct_def)
  have o: "0 < crossProduct (Vector2 0 0) (Vector2 1 0) ?b"
    by (simp add: crossProduct_def)
  have "\<not> insideOrOn [Vector2 0 0, Vector2 1 0, ?b] ?a"
  proof
    assume io: "insideOrOn [Vector2 0 0, Vector2 1 0, ?b] ?a"
    have "2 < length [Vector2 0 0, Vector2 1 0, ?b]" by simp
    with io have "0 \<le> crossProduct ([Vector2 0 0, Vector2 1 0, ?b] ! 2)
        ([Vector2 0 0, Vector2 1 0, ?b] ! ((2 + 1) mod length [Vector2 0 0, Vector2 1 0, ?b])) ?a"
      unfolding insideOrOn_def by blast
    then have "0 \<le> crossProduct ?b (Vector2 0 0) ?a" by simp
    with c show False by simp
  qed
  then have n: "\<not> insideOrOn (fst (computeConvexHull2D E ?xs)) ?a"
    unfolding h .
  from h l m o c n show ?thesis by blast
qed

theorem hull_misses_input_point_witness:
  "angleKey quarterEngine (Vector2 0 0) (Vector2 1 0) <
     angleKey quarterEngine (Vector2 0 0) (Vector2 (- 1) (1 / 2)) \<and>
   angleKey quarterEngine (Vector2 0 0) (Vector2 (- 1) (1 / 2)) =
     angleKey quarterEngine (Vector2 0 0) (Vector2 (- 1) (1 / 2 + 1 / 2 ^ 53)) \<and>
   distKey quarterEngine (Vector2 0 0) (Vector2 (- 1) (1 / 2)) =
     distKey quarterEngine (Vector2 0 0) (Vector2 (- 1) (1 / 2 + 1 / 2 ^ 53)) \<and>
   fst (computeConvexHull2D quarterEngine
     [Vector2 0 0, Vector2 1 0, Vector2 (- 1) (1 / 2), Vector2 (- 1) (1 / 2 + 1 / 2 ^ 53)]) =
     [Vector2 0 0, Vector2 1 0, Vector2 (- 1) (1 / 2 + 1 / 2 ^ 53)] \<and>
   \<not> insideOrOn
     (fst (computeConvexHull2D quarterEngine
       [Vector2 0 0, Vector2 1 0, Vector2 (- 1) (1 / 2), Vector2 (- 1) (1 / 2 + 1 / 2 ^ 53)]))
     (Vector2 (- 1) (1 / 2))"
proof -
  note k = quarterEngine_tie
  from k hull_misses_input_point [OF k] show ?thesis by blast
qed


end
